theory Spec2Isabelle
  imports Complex_Main "HOL-Library.Signed_Division" "HOL-Library.Multiset"
begin

section \<open>Pattern Recall: the data model\<close>

text \<open>
  The repository holds two copies of the game logic. The responsive script (the file
  with the mutable \<open>GRID_WIDTH\<close>/\<open>GRID_HEIGHT\<close>, \<open>maxAttempts = 200\<close> and
  \<open>maxBacktracks = 1000\<close>) is embedded under the source's own names. The second
  copy, \<open>game.js\<close>, shares \<open>wouldCreateLoop\<close>, the neighbour scan and
  \<open>generateSnakePath\<close> with it and differs in \<open>attemptPathGeneration\<close>,
  \<open>chooseNextTile\<close> and \<open>generatePath\<close>; its versions carry the suffix
  \<open>_gamejs\<close>.

  Tile indices, coordinates and the grid dimensions are JavaScript numbers holding small
  integers: they are \<open>int\<close> here. The grid dimensions and the path length are the
  globals \<open>GRID_WIDTH\<close>, \<open>GRID_HEIGHT\<close> and \<open>PATH_LENGTH\<close> of the scripts,
  gathered in a record so that every function reads them from its first argument.
\<close>

record config =
  GRID_WIDTH :: int
  GRID_HEIGHT :: int
  PATH_LENGTH :: int

text \<open>The two layouts \<open>setGridDimensions\<close> installs, with \<open>PATH_LENGTH = 36\<close>.\<close>

definition desktopConfig :: config where
  "desktopConfig = \<lparr>GRID_WIDTH = 12, GRID_HEIGHT = 8, PATH_LENGTH = 36\<rparr>"

definition mobileConfig :: config where
  "mobileConfig = \<lparr>GRID_WIDTH = 8, GRID_HEIGHT = 12, PATH_LENGTH = 36\<rparr>"

subsection \<open>The random source\<close>

text \<open>
  \<open>Math.random()\<close> returns a number \<open>u\<close> with \<open>0 \<le> u < 1\<close>. The scripts use it
  only as \<open>Math.floor(Math.random() * n)\<close>. A draw is a real of the unit interval, the
  random source is the sequence of the draws, and every function that draws takes the
  number of draws made so far and returns the new count with its result. The product is
  the exact one: the rounding of the floating-point product is outside the model.
\<close>

typedef draw = "{u :: real. 0 \<le> u \<and> u < 1}"
  by (rule exI [of _ 0]) simp

setup_lifting type_definition_draw

lift_definition floorRandomTimes :: "draw \<Rightarrow> int \<Rightarrow> int"
  is "\<lambda>u n. \<lfloor>u * of_int n\<rfloor>" .

lift_definition drawOfFraction :: "nat \<Rightarrow> nat \<Rightarrow> draw"
  is "\<lambda>p q. if p < q then real p / real q else 0"
  by simp

type_synonym random_source = "nat \<Rightarrow> draw"

subsection \<open>Reading an array\<close>

text \<open>
  \<open>xs[i]\<close> is \<open>undefined\<close> outside \<open>0 \<le> i < xs.length\<close>; \<open>None\<close> stands for
  \<open>undefined\<close>.
\<close>

definition arrayGet :: "'a list \<Rightarrow> int \<Rightarrow> 'a option" where
  "arrayGet xs i = (if 0 \<le> i \<and> i < int (length xs) then Some (xs ! nat i) else None)"

subsection \<open>Coordinates of a tile\<close>

text \<open>
  \<open>index % GRID_WIDTH\<close> is JavaScript's remainder, whose sign is the dividend's
  (\<open>smod\<close>); \<open>Math.floor(index / GRID_WIDTH)\<close> is the floor of the quotient
  (\<open>div\<close> on \<open>int\<close>).
\<close>

definition tileX :: "config \<Rightarrow> int \<Rightarrow> int" where
  "tileX cfg index = index smod GRID_WIDTH cfg"

definition tileY :: "config \<Rightarrow> int \<Rightarrow> int" where
  "tileY cfg index = index div GRID_WIDTH cfg"

text \<open>The Manhattan distance of two tiles on the grid, as the claims use it.\<close>

definition manhattan :: "config \<Rightarrow> int \<Rightarrow> int \<Rightarrow> int" where
  "manhattan cfg a b = \<bar>tileX cfg a - tileX cfg b\<bar> + \<bar>tileY cfg a - tileY cfg b\<bar>"

section \<open>Path generation\<close>

subsection \<open>wouldCreateLoop\<close>

text \<open>
  The \<open>for\<close> loop runs over \<open>path[0 .. path.length - 2]\<close>, that is \<open>butlast path\<close>,
  and returns \<open>true\<close> at the first adjacent tile. The parameters \<open>currentX\<close> and
  \<open>currentY\<close> are not read (\<open>game.js\<close> does not have them).
\<close>

definition wouldCreateLoop :: "config \<Rightarrow> int \<Rightarrow> int \<Rightarrow> int \<Rightarrow> int list \<Rightarrow> bool" where
  "wouldCreateLoop cfg newIndex currentX currentY pth =
     (if length pth < 3 then False
      else
        let newX = newIndex smod GRID_WIDTH cfg;
            newY = newIndex div GRID_WIDTH cfg
        in list_ex (\<lambda>pathIndex.
             let pathX = pathIndex smod GRID_WIDTH cfg;
                 pathY = pathIndex div GRID_WIDTH cfg;
                 dx = \<bar>newX - pathX\<bar>;
                 dy = \<bar>newY - pathY\<bar>
             in (dx = 1 \<and> dy = 0) \<or> (dx = 0 \<and> dy = 1)) (butlast pth))"

subsection \<open>getValidNeighbors\<close>

definition directions :: "(int \<times> int) list" where
  "directions = [(0, -1), (0, 1), (-1, 0), (1, 0)]"

definition getValidNeighbors :: "config \<Rightarrow> int \<Rightarrow> int set \<Rightarrow> int list \<Rightarrow> int list" where
  "getValidNeighbors cfg index vis pth =
     (let x = index smod GRID_WIDTH cfg;
          y = index div GRID_WIDTH cfg
      in concat (map (\<lambda>(dx, dy).
           let nx = x + dx; ny = y + dy
           in if nx \<ge> 0 \<and> nx < GRID_WIDTH cfg \<and> ny \<ge> 0 \<and> ny < GRID_HEIGHT cfg
              then
                let neighborIndex = ny * GRID_WIDTH cfg + nx
                in if neighborIndex \<notin> vis
                   then if \<not> wouldCreateLoop cfg neighborIndex x y pth
                        then [neighborIndex] else []
                   else []
              else []) directions))"

subsection \<open>chooseNextTile\<close>

text \<open>
  Reading \<open>neighbors[i]\<close> outside the array gives \<open>undefined\<close>, and reading
  \<open>.index\<close> of an \<open>undefined\<close> entry of \<open>topOptions\<close> throws a TypeError.
  Both leave the integers, so they are results of their own.
\<close>

datatype js_fault = UndefinedTile | TypeError

definition arrayRead :: "int list \<Rightarrow> int \<Rightarrow> js_fault + int" where
  "arrayRead xs i = (case arrayGet xs i of None \<Rightarrow> Inl UndefinedTile | Some v \<Rightarrow> Inr v)"

text \<open>
  \<open>scoreNeighbors\<close> is the \<open>neighbors.map\<close> of \<open>chooseNextTile\<close>: an entry is the
  pair \<open>(index, score)\<close>. \<open>Array.prototype.sort\<close> is stable, and the comparator
  \<open>b.score - a.score\<close> orders by descending score: \<open>sort_key\<close> on the negated score.
\<close>

definition scoreNeighbors :: "config \<Rightarrow> int list \<Rightarrow> int set \<Rightarrow> int list \<Rightarrow> (int \<times> int) list" where
  "scoreNeighbors cfg neighbors vis pth =
     map (\<lambda>n.
       let futureVisited = insert n vis;
           futurePath = pth @ [n];
           futureNeighbors = getValidNeighbors cfg n futureVisited futurePath
       in (n, int (length futureNeighbors))) neighbors"

definition chooseNextTile ::
  "config \<Rightarrow> random_source \<Rightarrow> nat \<Rightarrow> int list \<Rightarrow> int set \<Rightarrow> int list \<Rightarrow> (js_fault + int) \<times> nat" where
  "chooseNextTile cfg rnd k neighbors vis pth =
     (if length neighbors = 1 then (arrayRead neighbors 0, k)
      else
        let scored = scoreNeighbors cfg neighbors vis pth;
            remainingTiles = PATH_LENGTH cfg - int (length pth);
            viable = filter (\<lambda>s. snd s > 0 \<or> remainingTiles \<le> 2) scored
        in if length viable = 0
           then (arrayRead neighbors (floorRandomTimes (rnd k) (int (length neighbors))), Suc k)
           else
             let sorted = sort_key (\<lambda>s. - snd s) viable;
                 topCount = min 3 (length viable);
                 topOptions = take topCount sorted
             in (case arrayGet topOptions (floorRandomTimes (rnd k) (int (length topOptions))) of
                   None \<Rightarrow> Inl TypeError
                 | Some s \<Rightarrow> Inr (fst s), Suc k))"

subsection \<open>attemptPathGeneration\<close>

text \<open>
  The state of one attempt: the \<open>path\<close> array, the \<open>visited\<close> set, the backtrack
  counter and the number of draws made so far. An attempt returns \<open>null\<close> or the
  path; \<open>Fault\<close> is an out-of-range read.
\<close>

record search_state =
  st_path :: "int list"
  st_visited :: "int set"
  st_backtrackCount :: nat
  st_draws :: nat

datatype attempt_outcome = Null | Path "int list" | Fault js_fault

datatype ('s, 'r) loop_step = Continue 's | Return 'r

text \<open>
  Every loop of the scripts is given as its step: one evaluation of the loop condition
  followed, when it holds, by one run of the body. \<open>Continue\<close> carries the state at
  the next evaluation of the condition, \<open>Return\<close> what the function returns.
  \<open>loopStates step n s\<close> is the state in which the condition is evaluated for the
  \<open>n\<close>-th time after the start in \<open>s\<close>, and \<open>None\<close> when the loop has returned
  before.
\<close>

fun loopStates :: "('s \<Rightarrow> ('s, 'r) loop_step) \<Rightarrow> nat \<Rightarrow> 's \<Rightarrow> 's option" where
  "loopStates step 0 s = Some s"
| "loopStates step (Suc n) s =
     (case step s of Continue s' \<Rightarrow> loopStates step n s' | Return r \<Rightarrow> None)"

definition maxBacktracks :: nat where
  "maxBacktracks = 1000"

definition attemptInit :: "config \<Rightarrow> random_source \<Rightarrow> nat \<Rightarrow> search_state" where
  "attemptInit cfg rnd k =
     (let startX = 1 + floorRandomTimes (rnd k) (GRID_WIDTH cfg - 2);
          startY = 1 + floorRandomTimes (rnd (Suc k)) (GRID_HEIGHT cfg - 2);
          startIndex = startY * GRID_WIDTH cfg + startX
      in \<lparr>st_path = [startIndex], st_visited = {startIndex}, st_backtrackCount = 0,
          st_draws = Suc (Suc k)\<rparr>)"

text \<open>The step of the \<open>while\<close> loop of \<open>attemptPathGeneration\<close>.\<close>

definition attemptStep ::
  "config \<Rightarrow> random_source \<Rightarrow> search_state \<Rightarrow> (search_state, attempt_outcome \<times> nat) loop_step" where
  "attemptStep cfg rnd s =
     (if int (length (st_path s)) < PATH_LENGTH cfg \<and> st_backtrackCount s < maxBacktracks
      then
        (case arrayGet (st_path s) (int (length (st_path s)) - 1) of
           None \<Rightarrow> Return (Fault UndefinedTile, st_draws s)
         | Some current \<Rightarrow>
             let neighbors = getValidNeighbors cfg current (st_visited s) (st_path s)
             in if length neighbors = 0
                then
                  if length (st_path s) \<le> 1 then Return (Null, st_draws s)
                  else
                    let removed = last (st_path s)
                    in Continue (s\<lparr>st_path := butlast (st_path s),
                                    st_visited := st_visited s - {removed},
                                    st_backtrackCount := st_backtrackCount s + 1\<rparr>)
                else
                  (case chooseNextTile cfg rnd (st_draws s) neighbors (st_visited s) (st_path s) of
                     (Inl e, k') \<Rightarrow> Return (Fault e, k')
                   | (Inr next, k') \<Rightarrow>
                       Continue (s\<lparr>st_path := st_path s @ [next],
                                    st_visited := insert next (st_visited s),
                                    st_draws := k'\<rparr>)))
      else Return (if int (length (st_path s)) = PATH_LENGTH cfg then Path (st_path s) else Null,
                   st_draws s))"

text \<open>
  The \<open>while\<close> loop. It ends because every run of the body either increments the
  backtrack counter, which the condition bounds by \<open>maxBacktracks\<close>, or lengthens the
  path, which the condition bounds by \<open>PATH_LENGTH\<close>.
\<close>

definition attemptMeasure :: "config \<Rightarrow> search_state \<Rightarrow> nat" where
  "attemptMeasure cfg s =
     (maxBacktracks - st_backtrackCount s) * (nat (PATH_LENGTH cfg) + 1)
       + (nat (PATH_LENGTH cfg) - length (st_path s))"

lemma attemptStep_decreases:
  assumes "attemptStep cfg rnd s = Continue s'"
  shows "attemptMeasure cfg s' < attemptMeasure cfg s"
proof -
  let ?L = "nat (PATH_LENGTH cfg)"
  from assms have run: "int (length (st_path s)) < PATH_LENGTH cfg"
    and bc: "st_backtrackCount s < maxBacktracks"
    by (auto simp: attemptStep_def split: if_splits)
  from run have len: "length (st_path s) < ?L" by linarith
  from assms run bc consider
      (pop) "st_backtrackCount s' = st_backtrackCount s + 1"
            "length (st_path s') = length (st_path s) - 1"
    | (push) "st_backtrackCount s' = st_backtrackCount s"
             "length (st_path s') = length (st_path s) + 1"
    by (auto simp: attemptStep_def Let_def
        split: if_splits option.splits prod.splits sum.splits)
  then show ?thesis
  proof cases
    case pop
    from bc obtain d where d: "maxBacktracks - st_backtrackCount s = Suc d"
      by (cases "maxBacktracks - st_backtrackCount s") auto
    then have d': "maxBacktracks - st_backtrackCount s' = d"
      using pop by simp
    have after: "attemptMeasure cfg s' = d * (?L + 1) + (?L - (length (st_path s) - 1))"
      by (simp only: attemptMeasure_def d' pop(2))
    have before: "attemptMeasure cfg s = Suc d * (?L + 1) + (?L - length (st_path s))"
      by (simp only: attemptMeasure_def d)
    show ?thesis
      unfolding after before by simp
  next
    case push
    have "?L - (length (st_path s) + 1) < ?L - length (st_path s)"
      using len by linarith
    then show ?thesis
      by (simp only: attemptMeasure_def push add_less_cancel_left)
  qed
qed

function attemptLoop :: "config \<Rightarrow> random_source \<Rightarrow> search_state \<Rightarrow> attempt_outcome \<times> nat" where
  "attemptLoop cfg rnd s =
     (case attemptStep cfg rnd s of
        Return r \<Rightarrow> r
      | Continue s' \<Rightarrow> attemptLoop cfg rnd s')"
  by pat_completeness auto
termination
  by (relation "measure (\<lambda>(cfg, rnd, s). attemptMeasure cfg s)")
     (auto simp: attemptStep_decreases)

definition attemptPathGeneration :: "config \<Rightarrow> random_source \<Rightarrow> nat \<Rightarrow> attempt_outcome \<times> nat" where
  "attemptPathGeneration cfg rnd k = attemptLoop cfg rnd (attemptInit cfg rnd k)"

subsection \<open>generateSnakePath\<close>

record snake_state =
  sn_path :: "int list"
  sn_x :: int
  sn_y :: int
  sn_direction :: int

definition snakeStep :: "config \<Rightarrow> snake_state \<Rightarrow> (snake_state, int list) loop_step" where
  "snakeStep cfg s =
     (if int (length (sn_path s)) < PATH_LENGTH cfg
      then
        let index = sn_y s * GRID_WIDTH cfg + sn_x s;
            pth = sn_path s @ [index];
            nextX = sn_x s + sn_direction s
        in if nextX \<ge> 0 \<and> nextX < GRID_WIDTH cfg \<and> int (length pth) < PATH_LENGTH cfg
           then Continue (s\<lparr>sn_path := pth, sn_x := nextX\<rparr>)
           else
             let y = sn_y s + 1
             in if y \<ge> GRID_HEIGHT cfg then Return pth
                else Continue (s\<lparr>sn_path := pth, sn_y := y,
                                 sn_direction := sn_direction s * (-1)\<rparr>)
      else Return (sn_path s))"

lemma snakeStep_decreases:
  "snakeStep cfg s = Continue s' \<Longrightarrow>
     nat (PATH_LENGTH cfg) - length (sn_path s') < nat (PATH_LENGTH cfg) - length (sn_path s)"
  by (auto simp: snakeStep_def Let_def split: if_splits)

function snakeLoop :: "config \<Rightarrow> snake_state \<Rightarrow> int list" where
  "snakeLoop cfg s =
     (case snakeStep cfg s of
        Return r \<Rightarrow> r
      | Continue s' \<Rightarrow> snakeLoop cfg s')"
  by pat_completeness auto
termination
  by (relation "measure (\<lambda>(cfg, s). nat (PATH_LENGTH cfg) - length (sn_path s))")
     (auto dest: snakeStep_decreases)

definition generateSnakePath :: "config \<Rightarrow> int list" where
  "generateSnakePath cfg =
     snakeLoop cfg \<lparr>sn_path = [], sn_x = 0, sn_y = 0, sn_direction = 1\<rparr>"

subsection \<open>generatePath\<close>

definition maxAttempts :: nat where
  "maxAttempts = 200"

text \<open>
  The \<open>while (attempts < maxAttempts)\<close> loop; \<open>path && path.length === PATH_LENGTH\<close>
  holds for an array of that length and fails for \<open>null\<close>. The state is the counter
  \<open>attempts\<close> and the number of draws made so far.
\<close>

record generate_state =
  gen_attempts :: nat
  gen_draws :: nat

definition generateStep ::
  "config \<Rightarrow> random_source \<Rightarrow> generate_state
     \<Rightarrow> (generate_state, (js_fault + int list) \<times> nat) loop_step" where
  "generateStep cfg rnd g =
     (if gen_attempts g < maxAttempts
      then
        (case attemptPathGeneration cfg rnd (gen_draws g) of
           (Path pth, k') \<Rightarrow>
             if int (length pth) = PATH_LENGTH cfg then Return (Inr pth, k')
             else Continue \<lparr>gen_attempts = gen_attempts g + 1, gen_draws = k'\<rparr>
         | (Null, k') \<Rightarrow> Continue \<lparr>gen_attempts = gen_attempts g + 1, gen_draws = k'\<rparr>
         | (Fault e, k') \<Rightarrow> Return (Inl e, k'))
      else Return (Inr (generateSnakePath cfg), gen_draws g))"

lemma generateStep_decreases:
  "generateStep cfg rnd g = Continue g' \<Longrightarrow>
     maxAttempts - gen_attempts g' < maxAttempts - gen_attempts g"
  by (auto simp: generateStep_def split: if_splits prod.splits attempt_outcome.splits)

function generateLoop ::
  "config \<Rightarrow> random_source \<Rightarrow> generate_state \<Rightarrow> (js_fault + int list) \<times> nat" where
  "generateLoop cfg rnd g =
     (case generateStep cfg rnd g of
        Return r \<Rightarrow> r
      | Continue g' \<Rightarrow> generateLoop cfg rnd g')"
  by pat_completeness auto
termination
  by (relation "measure (\<lambda>(cfg, rnd, g). maxAttempts - gen_attempts g)")
     (auto dest: generateStep_decreases)

definition generatePath :: "config \<Rightarrow> random_source \<Rightarrow> nat \<Rightarrow> (js_fault + int list) \<times> nat" where
  "generatePath cfg rnd k = generateLoop cfg rnd \<lparr>gen_attempts = 0, gen_draws = k\<rparr>"

declare attemptLoop.simps [simp del] snakeLoop.simps [simp del] generateLoop.simps [simp del]

section \<open>Path generation in game.js\<close>

text \<open>
  \<open>game.js\<close> fixes the grid at 12 by 8. Its \<open>wouldCreateLoop\<close> takes the new index
  and the path only; \<open>getUnvisitedNeighbors\<close> is its neighbour scan. Its
  \<open>chooseNextTile\<close> scores every neighbour against the path as it is (not extended by
  the neighbour), sorts by descending score and draws from the upper half,
  \<open>scored.slice(0, Math.ceil(scored.length / 2))\<close>.
\<close>

definition wouldCreateLoop_gamejs :: "config \<Rightarrow> int \<Rightarrow> int list \<Rightarrow> bool" where
  "wouldCreateLoop_gamejs cfg newIndex pth =
     (if length pth < 3 then False
      else
        let newX = newIndex smod GRID_WIDTH cfg;
            newY = newIndex div GRID_WIDTH cfg
        in list_ex (\<lambda>pathIndex.
             let pathX = pathIndex smod GRID_WIDTH cfg;
                 pathY = pathIndex div GRID_WIDTH cfg;
                 dx = \<bar>newX - pathX\<bar>;
                 dy = \<bar>newY - pathY\<bar>
             in (dx = 1 \<and> dy = 0) \<or> (dx = 0 \<and> dy = 1)) (butlast pth))"

definition getUnvisitedNeighbors :: "config \<Rightarrow> int \<Rightarrow> int set \<Rightarrow> int list \<Rightarrow> int list" where
  "getUnvisitedNeighbors cfg index vis pth =
     (let x = index smod GRID_WIDTH cfg;
          y = index div GRID_WIDTH cfg
      in concat (map (\<lambda>(dx, dy).
           let nx = x + dx; ny = y + dy
           in if nx \<ge> 0 \<and> nx < GRID_WIDTH cfg \<and> ny \<ge> 0 \<and> ny < GRID_HEIGHT cfg
              then
                let neighborIndex = ny * GRID_WIDTH cfg + nx
                in if neighborIndex \<notin> vis
                   then if \<not> wouldCreateLoop_gamejs cfg neighborIndex pth
                        then [neighborIndex] else []
                   else []
              else []) directions))"

definition chooseNextTile_gamejs ::
  "config \<Rightarrow> random_source \<Rightarrow> nat \<Rightarrow> int list \<Rightarrow> int set \<Rightarrow> int list \<Rightarrow> (js_fault + int) \<times> nat" where
  "chooseNextTile_gamejs cfg rnd k neighbors vis pth =
     (let scored = map (\<lambda>n. (n, int (length (getUnvisitedNeighbors cfg n (insert n vis) pth))))
                     neighbors;
          sorted = sort_key (\<lambda>s. - snd s) scored;
          topHalf = take (nat \<lceil>real (length sorted) / 2\<rceil>) sorted
      in (case arrayGet topHalf (floorRandomTimes (rnd k) (int (length topHalf))) of
            None \<Rightarrow> Inl TypeError
          | Some s \<Rightarrow> Inr (fst s), Suc k))"

text \<open>
  The state of an attempt of \<open>game.js\<close>: there is no backtrack counter. A dead end
  pops the path and leaves \<open>visited\<close> as it is; the function returns the path when the
  loop ends.
\<close>

record search_state_gamejs =
  gj_path :: "int list"
  gj_visited :: "int set"
  gj_draws :: nat

definition attemptInit_gamejs :: "config \<Rightarrow> random_source \<Rightarrow> nat \<Rightarrow> search_state_gamejs" where
  "attemptInit_gamejs cfg rnd k =
     (let startX = floorRandomTimes (rnd k) (GRID_WIDTH cfg);
          startY = floorRandomTimes (rnd (Suc k)) (GRID_HEIGHT cfg);
          startIndex = startY * GRID_WIDTH cfg + startX
      in \<lparr>gj_path = [startIndex], gj_visited = {startIndex}, gj_draws = Suc (Suc k)\<rparr>)"

definition attemptStep_gamejs ::
  "config \<Rightarrow> random_source \<Rightarrow> search_state_gamejs
     \<Rightarrow> (search_state_gamejs, attempt_outcome \<times> nat) loop_step" where
  "attemptStep_gamejs cfg rnd s =
     (if int (length (gj_path s)) < PATH_LENGTH cfg
      then
        (case arrayGet (gj_path s) (int (length (gj_path s)) - 1) of
           None \<Rightarrow> Return (Fault UndefinedTile, gj_draws s)
         | Some current \<Rightarrow>
             let neighbors = getUnvisitedNeighbors cfg current (gj_visited s) (gj_path s)
             in if length neighbors = 0
                then
                  if length (gj_path s) \<le> 1 then Return (Null, gj_draws s)
                  else Continue (s\<lparr>gj_path := butlast (gj_path s)\<rparr>)
                else
                  (case chooseNextTile_gamejs cfg rnd (gj_draws s) neighbors
                          (gj_visited s) (gj_path s) of
                     (Inl e, k') \<Rightarrow> Return (Fault e, k')
                   | (Inr next, k') \<Rightarrow>
                       Continue (s\<lparr>gj_path := gj_path s @ [next],
                                    gj_visited := insert next (gj_visited s),
                                    gj_draws := k'\<rparr>)))
      else Return (Path (gj_path s), gj_draws s))"

subsection \<open>The loops of game.js\<close>

text \<open>
  The loop of \<open>game.js\<close> has no bound on the backtracks. It ends because a push marks
  a tile of the grid that was not visited, a pop shortens the path and unmarks nothing.
\<close>

definition unvisitedCount :: "config \<Rightarrow> search_state_gamejs \<Rightarrow> nat" where
  "unvisitedCount cfg s = card ({0 ..< GRID_WIDTH cfg * GRID_HEIGHT cfg} - gj_visited s)"

lemma cell_in_grid:
  assumes "0 \<le> x" "x < w" "0 \<le> y" "y < h"
  shows "0 \<le> y * w + x" and "y * w + x < w * (h::int)"
proof -
  show "0 \<le> y * w + x" using assms by simp
  have "y + 1 \<le> h" using assms by simp
  then have "(y + 1) * w \<le> h * w" using assms by (intro mult_right_mono) auto
  then show "y * w + x < w * h" using assms by (simp add: algebra_simps)
qed

lemma arrayGet_Some: "arrayGet xs i = Some v \<Longrightarrow> v \<in> set xs"
  by (auto simp: arrayGet_def split: if_splits)

lemma getUnvisitedNeighbors_fresh:
  assumes "n \<in> set (getUnvisitedNeighbors cfg c vis pth)"
  shows "n \<in> {0 ..< GRID_WIDTH cfg * GRID_HEIGHT cfg} - vis"
proof -
  from assms obtain nx ny where
    b: "0 \<le> nx" "nx < GRID_WIDTH cfg" "0 \<le> ny" "ny < GRID_HEIGHT cfg"
    and n: "n = ny * GRID_WIDTH cfg + nx" and v: "n \<notin> vis"
    unfolding getUnvisitedNeighbors_def Let_def by (auto split: if_splits)
  from cell_in_grid [OF b] n v show ?thesis by simp
qed

lemma chooseNextTile_gamejs_Inr:
  assumes "chooseNextTile_gamejs cfg rnd k neighbors vis pth = (Inr n, k')"
  shows "n \<in> set neighbors"
proof -
  let ?scored = "map (\<lambda>n. (n, int (length (getUnvisitedNeighbors cfg n (insert n vis) pth))))
                     neighbors"
  let ?sorted = "sort_key (\<lambda>s. - snd s) ?scored"
  let ?top = "take (nat \<lceil>real (length ?sorted) / 2\<rceil>) ?sorted"
  from assms obtain s where
    s: "arrayGet ?top (floorRandomTimes (rnd k) (int (length ?top))) = Some s" and n: "n = fst s"
    by (auto simp: chooseNextTile_gamejs_def Let_def split: option.splits)
  from s have "s \<in> set ?top" by (rule arrayGet_Some)
  then have "s \<in> set ?sorted" by (rule in_set_takeD)
  then show ?thesis unfolding n by auto
qed

lemma attemptStep_gamejs_decreases:
  assumes "attemptStep_gamejs cfg rnd s = Continue s'"
  shows "unvisitedCount cfg s' < unvisitedCount cfg s
     \<or> (unvisitedCount cfg s' = unvisitedCount cfg s \<and> length (gj_path s') < length (gj_path s))"
proof -
  let ?U = "{0 ..< GRID_WIDTH cfg * GRID_HEIGHT cfg} - gj_visited s"
  from assms obtain current where
    cur: "arrayGet (gj_path s) (int (length (gj_path s)) - 1) = Some current"
    by (auto simp: attemptStep_gamejs_def split: if_splits option.splits)
  let ?nb = "getUnvisitedNeighbors cfg current (gj_visited s) (gj_path s)"
  show ?thesis
  proof (cases "length ?nb = 0")
    case True
    with assms cur have "1 < length (gj_path s)" "s' = s\<lparr>gj_path := butlast (gj_path s)\<rparr>"
      by (auto simp: attemptStep_gamejs_def Let_def split: if_splits)
    then show ?thesis by (simp add: unvisitedCount_def)
  next
    case False
    with assms cur obtain n k' where
      c: "chooseNextTile_gamejs cfg rnd (gj_draws s) ?nb (gj_visited s) (gj_path s) = (Inr n, k')"
      and s': "s' = s\<lparr>gj_path := gj_path s @ [n], gj_visited := insert n (gj_visited s),
                      gj_draws := k'\<rparr>"
      by (auto simp: attemptStep_gamejs_def Let_def split: if_splits prod.splits sum.splits)
    from c have "n \<in> set ?nb" by (rule chooseNextTile_gamejs_Inr)
    then have "n \<in> ?U" by (rule getUnvisitedNeighbors_fresh)
    moreover have "finite ?U" by simp
    ultimately have "card (?U - {n}) < card ?U" by (simp only: card_Diff1_less)
    moreover have "{0 ..< GRID_WIDTH cfg * GRID_HEIGHT cfg} - insert n (gj_visited s) = ?U - {n}"
      by auto
    ultimately show ?thesis using s' by (simp add: unvisitedCount_def)
  qed
qed

function attemptLoop_gamejs ::
  "config \<Rightarrow> random_source \<Rightarrow> search_state_gamejs \<Rightarrow> attempt_outcome \<times> nat" where
  "attemptLoop_gamejs cfg rnd s =
     (case attemptStep_gamejs cfg rnd s of
        Return r \<Rightarrow> r
      | Continue s' \<Rightarrow> attemptLoop_gamejs cfg rnd s')"
  by pat_completeness auto
termination
proof (relation "measures [\<lambda>(cfg, rnd, s). unvisitedCount cfg s,
                           \<lambda>(cfg, rnd, s). length (gj_path s)]", goal_cases)
  case 1
  show ?case by simp
next
  case (2 cfg rnd s s')
  from attemptStep_gamejs_decreases [OF 2] show ?case by auto
qed

declare attemptLoop_gamejs.simps [simp del]

definition attemptPathGeneration_gamejs ::
  "config \<Rightarrow> random_source \<Rightarrow> nat \<Rightarrow> attempt_outcome \<times> nat" where
  "attemptPathGeneration_gamejs cfg rnd k =
     attemptLoop_gamejs cfg rnd (attemptInit_gamejs cfg rnd k)"

definition maxAttempts_gamejs :: nat where
  "maxAttempts_gamejs = 100"

definition generateStep_gamejs ::
  "config \<Rightarrow> random_source \<Rightarrow> generate_state
     \<Rightarrow> (generate_state, (js_fault + int list) \<times> nat) loop_step" where
  "generateStep_gamejs cfg rnd g =
     (if gen_attempts g < maxAttempts_gamejs
      then
        (case attemptPathGeneration_gamejs cfg rnd (gen_draws g) of
           (Path pth, k') \<Rightarrow>
             if int (length pth) = PATH_LENGTH cfg then Return (Inr pth, k')
             else Continue \<lparr>gen_attempts = gen_attempts g + 1, gen_draws = k'\<rparr>
         | (Null, k') \<Rightarrow> Continue \<lparr>gen_attempts = gen_attempts g + 1, gen_draws = k'\<rparr>
         | (Fault e, k') \<Rightarrow> Return (Inl e, k'))
      else Return (Inr (generateSnakePath cfg), gen_draws g))"

lemma generateStep_gamejs_decreases:
  "generateStep_gamejs cfg rnd g = Continue g' \<Longrightarrow>
     maxAttempts_gamejs - gen_attempts g' < maxAttempts_gamejs - gen_attempts g"
  by (auto simp: generateStep_gamejs_def split: if_splits prod.splits attempt_outcome.splits)

function generateLoop_gamejs ::
  "config \<Rightarrow> random_source \<Rightarrow> generate_state \<Rightarrow> (js_fault + int list) \<times> nat" where
  "generateLoop_gamejs cfg rnd g =
     (case generateStep_gamejs cfg rnd g of
        Return r \<Rightarrow> r
      | Continue g' \<Rightarrow> generateLoop_gamejs cfg rnd g')"
  by pat_completeness auto
termination
  by (relation "measure (\<lambda>(cfg, rnd, g). maxAttempts_gamejs - gen_attempts g)")
     (auto dest: generateStep_gamejs_decreases)

declare generateLoop_gamejs.simps [simp del]

definition generatePath_gamejs ::
  "config \<Rightarrow> random_source \<Rightarrow> nat \<Rightarrow> (js_fault + int list) \<times> nat" where
  "generatePath_gamejs cfg rnd k = generateLoop_gamejs cfg rnd \<lparr>gen_attempts = 0, gen_draws = k\<rparr>"

section \<open>Game flow\<close>

datatype game_mode = IDLE | MEMORIZE | RECALL

record game_state =
  pattern :: "int list"
  userSelected :: "int list"
  mode :: game_mode
  timerInterval :: "nat option"
  startTime :: "int option"
  peekCount :: nat

text \<open>
  \<open>showPattern\<close>, the handler of the peek button. Its calls to \<open>updateStatus\<close>,
  \<open>updateProgress\<close> and \<open>displayPattern\<close> write to the page only and leave
  \<open>gameState\<close> as it is.
\<close>

definition showPattern :: "game_state \<Rightarrow> game_state" where
  "showPattern gs =
     (let gs1 = (if mode gs = RECALL then gs\<lparr>peekCount := peekCount gs + 1\<rparr> else gs)
      in gs1\<lparr>mode := MEMORIZE, userSelected := []\<rparr>)"

section \<open>The properties of a path\<close>

text \<open>
  A tile of the grid; a path whose consecutive tiles are 4-directionally adjacent; a path
  none of whose non-consecutive tiles are; the visited set in lock-step with the path.
\<close>

definition inGrid :: "config \<Rightarrow> int \<Rightarrow> bool" where
  "inGrid cfg c \<longleftrightarrow> 0 \<le> c \<and> c < GRID_WIDTH cfg * GRID_HEIGHT cfg"

definition consecutiveAdjacent :: "config \<Rightarrow> int list \<Rightarrow> bool" where
  "consecutiveAdjacent cfg p \<longleftrightarrow>
     (\<forall>i. Suc i < length p \<longrightarrow> manhattan cfg (p ! i) (p ! Suc i) = 1)"

definition noTouching :: "config \<Rightarrow> int list \<Rightarrow> bool" where
  "noTouching cfg p \<longleftrightarrow>
     (\<forall>i j. i < length p \<and> j < length p \<and> 1 < \<bar>int i - int j\<bar>
        \<longrightarrow> manhattan cfg (p ! i) (p ! j) \<noteq> 1)"

definition lockStep :: "search_state \<Rightarrow> bool" where
  "lockStep s \<longleftrightarrow> st_path s \<noteq> [] \<and> st_visited s = set (st_path s) \<and> distinct (st_path s)"

definition threadInvariant :: "config \<Rightarrow> search_state \<Rightarrow> bool" where
  "threadInvariant cfg s \<longleftrightarrow>
     lockStep s \<and> consecutiveAdjacent cfg (st_path s) \<and> noTouching cfg (st_path s)"

text \<open>
  The bounds the condition of the loop of an attempt keeps on its state.
\<close>

definition attemptBounds :: "config \<Rightarrow> search_state \<Rightarrow> bool" where
  "attemptBounds cfg s \<longleftrightarrow>
     st_path s \<noteq> [] \<and> st_backtrackCount s \<le> maxBacktracks
     \<and> length (st_path s) \<le> max 1 (nat (PATH_LENGTH cfg))"

text \<open>
  The invariant of the loop of \<open>generateSnakePath\<close>: the cursor is in a column of the
  grid, the direction is 1 or -1, the tiles pushed so far are consecutively adjacent and
  the cursor is adjacent to the last of them.
\<close>

definition snakeInvariant :: "config \<Rightarrow> snake_state \<Rightarrow> bool" where
  "snakeInvariant cfg s \<longleftrightarrow>
     0 \<le> sn_x s \<and> sn_x s < GRID_WIDTH cfg \<and> 0 \<le> sn_y s \<and> \<bar>sn_direction s\<bar> = 1
     \<and> consecutiveAdjacent cfg (sn_path s)
     \<and> (sn_path s = []
          \<or> manhattan cfg (last (sn_path s)) (sn_y s * GRID_WIDTH cfg + sn_x s) = 1)"

text \<open>
  The invariant of the search of \<open>game.js\<close>: the visited set holds every tile of the
  path (and the tiles popped before), the path has no repetition, its consecutive tiles
  are adjacent and no others are.
\<close>

definition visitedCovers :: "search_state_gamejs \<Rightarrow> bool" where
  "visitedCovers g \<longleftrightarrow> gj_path g \<noteq> [] \<and> set (gj_path g) \<subseteq> gj_visited g"

definition threadInvariant_gamejs :: "config \<Rightarrow> search_state_gamejs \<Rightarrow> bool" where
  "threadInvariant_gamejs cfg g \<longleftrightarrow>
     visitedCovers g \<and> distinct (gj_path g)
     \<and> consecutiveAdjacent cfg (gj_path g) \<and> noTouching cfg (gj_path g)"

text \<open>
  The number of draws made after one step of a loop: the count of the next state, or the
  count that is returned.
\<close>

fun stepDraws :: "(search_state, attempt_outcome \<times> nat) loop_step \<Rightarrow> nat" where
  "stepDraws (Continue s) = st_draws s"
| "stepDraws (Return r) = snd r"

fun generateStepDraws ::
  "(generate_state, (js_fault + int list) \<times> nat) loop_step \<Rightarrow> nat" where
  "generateStepDraws (Continue g) = gen_draws g"
| "generateStepDraws (Return r) = snd r"

fun stepDraws_gamejs :: "(search_state_gamejs, attempt_outcome \<times> nat) loop_step \<Rightarrow> nat" where
  "stepDraws_gamejs (Continue g) = gj_draws g"
| "stepDraws_gamejs (Return r) = snd r"

text \<open>
  The real number a draw stands for.
\<close>

lift_definition drawValue :: "draw \<Rightarrow> real" is "\<lambda>u. u" .

section \<open>The scored selection, as the specification words it\<close>

text \<open>
  The lookahead score of a candidate is the number of valid neighbours it has once it is
  added to the path and to the visited set. The path is near completion when it is
  within 2 tiles of the target length. The survivors are the candidates whose score is
  not 0, all of them near completion. A tile is a scored selection for a draw when it
  is the only candidate or, with several candidates, stands at the index the draw
  selects among the first \<open>min 3 (number of survivors)\<close> survivors of some arrangement
  of the survivors in descending order of score.
\<close>

definition lookaheadScore :: "config \<Rightarrow> int set \<Rightarrow> int list \<Rightarrow> int \<Rightarrow> int" where
  "lookaheadScore cfg vis pth n = int (length (getValidNeighbors cfg n (insert n vis) (pth @ [n])))"

definition nearCompletion :: "config \<Rightarrow> int list \<Rightarrow> bool" where
  "nearCompletion cfg pth \<longleftrightarrow> PATH_LENGTH cfg - int (length pth) \<le> 2"

definition survivors :: "config \<Rightarrow> int list \<Rightarrow> int set \<Rightarrow> int list \<Rightarrow> int list" where
  "survivors cfg neighbors vis pth =
     filter (\<lambda>n. lookaheadScore cfg vis pth n \<noteq> 0 \<or> nearCompletion cfg pth) neighbors"

definition rankedSelection :: "(int \<Rightarrow> int) \<Rightarrow> int list \<Rightarrow> int \<Rightarrow> int \<Rightarrow> bool" where
  "rankedSelection score candidates i r \<longleftrightarrow>
     (\<exists>ranked. mset ranked = mset candidates
        \<and> sorted_wrt (\<lambda>a b. score b \<le> score a) ranked
        \<and> arrayGet ranked i = Some r)"

definition specScoredSelection ::
  "config \<Rightarrow> draw \<Rightarrow> int list \<Rightarrow> int set \<Rightarrow> int list \<Rightarrow> int \<Rightarrow> bool" where
  "specScoredSelection cfg u neighbors vis pth r \<longleftrightarrow>
     (if length neighbors = 1 then arrayGet neighbors 0 = Some r
      else rankedSelection (lookaheadScore cfg vis pth) (survivors cfg neighbors vis pth)
             (floorRandomTimes u (int (min 3 (length (survivors cfg neighbors vis pth))))) r)"

text \<open>The selection of \<open>game.js\<close>: no candidate is discarded, the score is taken
  against the path as it is, and the draw selects among the upper half.\<close>

definition lookaheadScore_gamejs :: "config \<Rightarrow> int set \<Rightarrow> int list \<Rightarrow> int \<Rightarrow> int" where
  "lookaheadScore_gamejs cfg vis pth n = int (length (getUnvisitedNeighbors cfg n (insert n vis) pth))"

section \<open>Concrete inputs\<close>

text \<open>
  A small grid and a random source whose every draw is \<open>0\<close>, to run the functions on;
  a random source that agrees with it on the first four draws.
\<close>

definition tinyConfig :: config where
  "tinyConfig = \<lparr>GRID_WIDTH = 4, GRID_HEIGHT = 4, PATH_LENGTH = 3\<rparr>"

definition zeroDraws :: random_source where
  "zeroDraws = (\<lambda>_. drawOfFraction 0 1)"

definition laterDraws :: random_source where
  "laterDraws = (\<lambda>i. if i < 4 then drawOfFraction 0 1 else drawOfFraction 1 2)"

text \<open>Draws that make \<open>game.js\<close> start at tile 14 and walk into the corner tile 0.\<close>

definition cornerDraws :: random_source where
  "cornerDraws = (\<lambda>i. if i = 0 then drawOfFraction 1 6
                       else if i = 1 then drawOfFraction 1 8 else drawOfFraction 1 2)"

text \<open>
  Draws that lead the search of the responsive script to a tile both of whose valid
  neighbours would be dead ends, and the state of the search at that tile.
\<close>

definition fallbackDraws :: random_source where
  "fallbackDraws = (\<lambda>i. if i = 0 then drawOfFraction 1 5
                         else if i = 3 then drawOfFraction 1 3
                         else if i = 7 then drawOfFraction 1 2 else drawOfFraction 0 1)"

definition fallbackState :: search_state where
  "fallbackState = \<lparr>st_path = [15, 27, 26, 25, 13, 1], st_visited = {1, 13, 15, 25, 26, 27},
     st_backtrackCount = 0, st_draws = 7\<rparr>"

section \<open>Facts about the draws, the coordinates and the neighbours\<close>

lemma floorRandomTimes_bounds:
  "0 < n \<Longrightarrow> 0 \<le> floorRandomTimes u n \<and> floorRandomTimes u n < n"
proof (transfer, intro conjI)
  fix n :: int and u :: real
  assume n: "0 < n" and u: "0 \<le> u \<and> u < 1"
  then show "0 \<le> \<lfloor>u * of_int n\<rfloor>" by simp
  from n u have "u * of_int n < 1 * of_int n"
    by (intro mult_strict_right_mono) auto
  then show "\<lfloor>u * of_int n\<rfloor> < n" by (simp add: floor_less_iff)
qed

lemma floorRandomTimes_zero: "floorRandomTimes u 0 = 0"
  by transfer simp

lemma floorRandomTimes_fraction:
  "floorRandomTimes (drawOfFraction p q) n = (if p < q then (int p * n) div int q else 0)"
proof (transfer, goal_cases)
  case (1 p q n)
  have "\<lfloor>real p / real q * of_int n\<rfloor> = \<lfloor>real_of_int (int p * n) / real_of_int (int q)\<rfloor>"
    by simp
  also have "\<dots> = (int p * n) div int q"
    by (rule floor_divide_of_int_eq)
  finally show ?case by simp
qed

lemma smod_nonneg: "0 \<le> a \<Longrightarrow> 0 < b \<Longrightarrow> (a::int) smod b = a mod b"
  by (simp add: smod_int_alt_def sgn_if)

lemma cell_coordinates:
  assumes "0 < GRID_WIDTH cfg" "0 \<le> x" "x < GRID_WIDTH cfg" "0 \<le> y"
  shows "tileX cfg (y * GRID_WIDTH cfg + x) = x" and "tileY cfg (y * GRID_WIDTH cfg + x) = y"
proof -
  have nn: "0 \<le> y * GRID_WIDTH cfg + x" using assms by simp
  show "tileX cfg (y * GRID_WIDTH cfg + x) = x"
    unfolding tileX_def using assms nn by (simp add: smod_nonneg)
  show "tileY cfg (y * GRID_WIDTH cfg + x) = y"
    unfolding tileY_def using assms by simp
qed

lemma tile_coordinates_nonneg:
  assumes "0 < GRID_WIDTH cfg" "0 \<le> c"
  shows "0 \<le> tileX cfg c" "tileX cfg c < GRID_WIDTH cfg" "0 \<le> tileY cfg c"
    "c = tileY cfg c * GRID_WIDTH cfg + tileX cfg c"
  using assms by (simp_all add: tileX_def tileY_def smod_nonneg pos_imp_zdiv_nonneg_iff)

lemma adjacent_iff: "((\<bar>a\<bar> = 1 \<and> \<bar>b\<bar> = 0) \<or> (\<bar>a\<bar> = 0 \<and> \<bar>b\<bar> = 1)) \<longleftrightarrow> \<bar>a\<bar> + \<bar>b\<bar> = (1::int)"
  by linarith

lemma manhattan_sym: "manhattan cfg a b = manhattan cfg b a"
  by (simp add: manhattan_def abs_minus_commute)

lemma abs_sum_parity: "\<bar>a\<bar> + \<bar>b\<bar> = (1::int) \<Longrightarrow> odd (a + b)"
  by presburger

lemma manhattan_parity:
  assumes "manhattan cfg a b = 1" "manhattan cfg b c = 1"
  shows "manhattan cfg a c \<noteq> 1"
proof
  assume "manhattan cfg a c = 1"
  let ?xa = "tileX cfg a" and ?ya = "tileY cfg a"
  let ?xb = "tileX cfg b" and ?yb = "tileY cfg b"
  let ?xc = "tileX cfg c" and ?yc = "tileY cfg c"
  from assms(1) have 1: "odd ((?xa - ?xb) + (?ya - ?yb))"
    unfolding manhattan_def by (rule abs_sum_parity)
  from assms(2) have 2: "odd ((?xb - ?xc) + (?yb - ?yc))"
    unfolding manhattan_def by (rule abs_sum_parity)
  from \<open>manhattan cfg a c = 1\<close> have 3: "odd ((?xa - ?xc) + (?ya - ?yc))"
    unfolding manhattan_def by (rule abs_sum_parity)
  have "(?xa - ?xc) + (?ya - ?yc) = ((?xa - ?xb) + (?ya - ?yb)) + ((?xb - ?xc) + (?yb - ?yc))"
    by simp
  with 1 2 have "even ((?xa - ?xc) + (?ya - ?yc))" by (metis odd_add)
  with 3 show False by blast
qed

lemma wouldCreateLoop_iff:
  "wouldCreateLoop cfg n cx cy pth \<longleftrightarrow>
     3 \<le> length pth \<and> (\<exists>c \<in> set (butlast pth). manhattan cfg n c = 1)"
  unfolding wouldCreateLoop_def manhattan_def tileX_def tileY_def Let_def list_ex_iff adjacent_iff
  by (cases "length pth < 3") simp_all

lemma getValidNeighbors_member:
  assumes "n \<in> set (getValidNeighbors cfg c vis pth)"
  shows "\<exists>dx dy. (dx, dy) \<in> set directions
           \<and> 0 \<le> tileX cfg c + dx \<and> tileX cfg c + dx < GRID_WIDTH cfg
           \<and> 0 \<le> tileY cfg c + dy \<and> tileY cfg c + dy < GRID_HEIGHT cfg
           \<and> n = (tileY cfg c + dy) * GRID_WIDTH cfg + (tileX cfg c + dx)
           \<and> n \<notin> vis
           \<and> \<not> wouldCreateLoop cfg n (tileX cfg c) (tileY cfg c) pth"
  using assms
  unfolding getValidNeighbors_def tileX_def tileY_def Let_def
  by (auto split: if_splits)

lemma getValidNeighbors_sound:
  assumes "n \<in> set (getValidNeighbors cfg c vis pth)"
  shows "0 \<le> n" "n < GRID_WIDTH cfg * GRID_HEIGHT cfg" "n \<notin> vis" "manhattan cfg c n = 1"
    "3 \<le> length pth \<Longrightarrow> \<forall>p \<in> set (butlast pth). manhattan cfg n p \<noteq> 1"
proof -
  from getValidNeighbors_member [OF assms] obtain dx dy where
    d: "(dx, dy) \<in> set directions"
    and x: "0 \<le> tileX cfg c + dx" "tileX cfg c + dx < GRID_WIDTH cfg"
    and y: "0 \<le> tileY cfg c + dy" "tileY cfg c + dy < GRID_HEIGHT cfg"
    and n: "n = (tileY cfg c + dy) * GRID_WIDTH cfg + (tileX cfg c + dx)"
    and vis: "n \<notin> vis"
    and loop: "\<not> wouldCreateLoop cfg n (tileX cfg c) (tileY cfg c) pth"
    by blast
  from x have w: "0 < GRID_WIDTH cfg" by linarith
  show "0 \<le> n" unfolding n using x y by (rule cell_in_grid(1))
  show "n < GRID_WIDTH cfg * GRID_HEIGHT cfg" unfolding n using x y by (rule cell_in_grid(2))
  show "n \<notin> vis" by (rule vis)
  have nx: "tileX cfg n = tileX cfg c + dx" and ny: "tileY cfg n = tileY cfg c + dy"
    unfolding n using w x y by (simp_all add: cell_coordinates)
  from d have "\<bar>dx\<bar> + \<bar>dy\<bar> = 1" by (auto simp: directions_def)
  then show "manhattan cfg c n = 1" by (simp add: manhattan_def nx ny)
  show "\<forall>p \<in> set (butlast pth). manhattan cfg n p \<noteq> 1" if "3 \<le> length pth"
    using loop that by (simp add: wouldCreateLoop_iff)
qed

lemma arrayGet_in_range:
  "0 \<le> i \<Longrightarrow> i < int (length xs) \<Longrightarrow> arrayGet xs i = Some (xs ! nat i)"
  by (simp add: arrayGet_def)

lemma arrayGet_random:
  assumes "xs \<noteq> []"
  shows "\<exists>v \<in> set xs. arrayGet xs (floorRandomTimes u (int (length xs))) = Some v"
proof -
  from assms have "0 < int (length xs)" by simp
  from floorRandomTimes_bounds [OF this, of u]
  have b: "0 \<le> floorRandomTimes u (int (length xs))"
    "floorRandomTimes u (int (length xs)) < int (length xs)" by simp_all
  then have "nat (floorRandomTimes u (int (length xs))) < length xs" by linarith
  then have "xs ! nat (floorRandomTimes u (int (length xs))) \<in> set xs" by simp
  moreover from b have "arrayGet xs (floorRandomTimes u (int (length xs))) =
          Some (xs ! nat (floorRandomTimes u (int (length xs))))"
    by (simp add: arrayGet_def)
  ultimately show ?thesis by blast
qed

lemma scoreNeighbors_fst: "fst ` set (scoreNeighbors cfg neighbors vis pth) = set neighbors"
  by (force simp: scoreNeighbors_def Let_def)

lemma chooseNextTile_member:
  assumes "neighbors \<noteq> []"
  shows "\<exists>n \<in> set neighbors. \<exists>k'. chooseNextTile cfg rnd k neighbors vis pth = (Inr n, k')
            \<and> k \<le> k' \<and> k' \<le> Suc k"
proof (cases "length neighbors = 1")
  case True
  then obtain n where "neighbors = [n]" by (cases neighbors) auto
  then show ?thesis by (simp add: chooseNextTile_def arrayRead_def arrayGet_def)
next
  case False
  let ?scored = "scoreNeighbors cfg neighbors vis pth"
  let ?viable = "filter (\<lambda>s. snd s > 0 \<or> PATH_LENGTH cfg - int (length pth) \<le> 2) ?scored"
  show ?thesis
  proof (cases "?viable = []")
    case True
    from arrayGet_random [OF assms, of "rnd k"] obtain v where
      "v \<in> set neighbors" "arrayGet neighbors (floorRandomTimes (rnd k) (int (length neighbors))) = Some v"
      by blast
    with False True show ?thesis
      by (simp add: chooseNextTile_def Let_def arrayRead_def)
  next
    case nonempty: False
    let ?top = "take (min 3 (length ?viable)) (sort_key (\<lambda>s. - snd s) ?viable)"
    from nonempty have "?top \<noteq> []" by (cases ?viable) auto
    from arrayGet_random [OF this, of "rnd k"] obtain s where
      s: "s \<in> set ?top" "arrayGet ?top (floorRandomTimes (rnd k) (int (length ?top))) = Some s"
      by blast
    from s(1) have "s \<in> set ?viable" by (auto dest: in_set_takeD)
    then have "s \<in> set ?scored" by simp
    then have "fst s \<in> set neighbors" using scoreNeighbors_fst [of cfg neighbors vis pth] by blast
    moreover have "chooseNextTile cfg rnd k neighbors vis pth = (Inr (fst s), Suc k)"
      using False nonempty s(2) by (simp add: chooseNextTile_def Let_def)
    ultimately show ?thesis by auto
  qed
qed

section \<open>The invariants of the search loop\<close>

lemma consecutiveAdjacent_snoc:
  assumes "consecutiveAdjacent cfg p" "p \<noteq> []" "manhattan cfg (last p) n = 1"
  shows "consecutiveAdjacent cfg (p @ [n])"
  unfolding consecutiveAdjacent_def
proof (intro allI impI)
  fix i assume i: "Suc i < length (p @ [n])"
  show "manhattan cfg ((p @ [n]) ! i) ((p @ [n]) ! Suc i) = 1"
  proof (cases "Suc i < length p")
    case True
    with assms(1) show ?thesis by (simp add: consecutiveAdjacent_def nth_append)
  next
    case False
    with i have e: "Suc i = length p" by simp
    then have i': "i = length p - 1" by simp
    have "(p @ [n]) ! i = last p"
      using assms(2) e by (simp add: i' nth_append last_conv_nth)
    moreover from e have "(p @ [n]) ! Suc i = n" by simp
    ultimately show ?thesis using assms(3) by simp
  qed
qed

lemma consecutiveAdjacent_butlast:
  "consecutiveAdjacent cfg p \<Longrightarrow> consecutiveAdjacent cfg (butlast p)"
  by (simp add: consecutiveAdjacent_def nth_butlast)

lemma noTouching_butlast:
  assumes "noTouching cfg p"
  shows "noTouching cfg (butlast p)"
  unfolding noTouching_def
proof (intro allI impI, elim conjE)
  fix i j
  assume i: "i < length (butlast p)" and j: "j < length (butlast p)"
    and far: "1 < \<bar>int i - int j\<bar>"
  then have "i < length p" "j < length p" by simp_all
  with assms far have "manhattan cfg (p ! i) (p ! j) \<noteq> 1" by (simp add: noTouching_def)
  with i j show "manhattan cfg (butlast p ! i) (butlast p ! j) \<noteq> 1"
    by (simp add: nth_butlast)
qed

lemma consecutiveAdjacent_single: "consecutiveAdjacent cfg [c]"
  by (simp add: consecutiveAdjacent_def)

lemma noTouching_single: "noTouching cfg [c]"
  by (auto simp: noTouching_def)

lemma noTouching_snoc:
  assumes "noTouching cfg p" "\<forall>c \<in> set (butlast p). manhattan cfg n c \<noteq> 1"
  shows "noTouching cfg (p @ [n])"
  unfolding noTouching_def
proof (intro allI impI, elim conjE)
  fix i j
  assume i: "i < length (p @ [n])" and j: "j < length (p @ [n])" and far: "1 < \<bar>int i - int j\<bar>"
  have new: "manhattan cfg (p ! a) n \<noteq> 1" if "Suc a < length p" for a
  proof -
    from that have "butlast p ! a \<in> set (butlast p)" by (intro nth_mem) simp
    moreover from that have "butlast p ! a = p ! a" by (simp add: nth_butlast)
    ultimately show ?thesis using assms(2) by (metis manhattan_sym)
  qed
  consider (old) "i < length p" "j < length p"
    | (right) "i < length p" "j = length p"
    | (left) "i = length p" "j < length p"
    using i j far by (cases "i = length p"; cases "j = length p") auto
  then show "manhattan cfg ((p @ [n]) ! i) ((p @ [n]) ! j) \<noteq> 1"
  proof cases
    case old
    with assms(1) far show ?thesis by (simp add: noTouching_def nth_append)
  next
    case right
    with far have "Suc i < length p" by simp
    from new [OF this] right show ?thesis by (simp add: nth_append)
  next
    case left
    with far have "Suc j < length p" by simp
    from new [OF this] left show ?thesis by (simp add: nth_append manhattan_sym)
  qed
qed

lemma lockStep_init: "lockStep (attemptInit cfg rnd k)"
  by (simp add: lockStep_def attemptInit_def Let_def)

lemma threadInvariant_init: "threadInvariant cfg (attemptInit cfg rnd k)"
  by (simp add: threadInvariant_def lockStep_def attemptInit_def Let_def
      consecutiveAdjacent_single noTouching_single)

text \<open>What one run of the loop body does, case by case.\<close>

lemma attemptStep_cases:
  assumes "attemptStep cfg rnd s = Continue s'" "st_path s \<noteq> []"
  obtains (pop) "getValidNeighbors cfg (last (st_path s)) (st_visited s) (st_path s) = []"
      "1 < length (st_path s)"
      "s' = s\<lparr>st_path := butlast (st_path s),
              st_visited := st_visited s - {last (st_path s)},
              st_backtrackCount := st_backtrackCount s + 1\<rparr>"
    | (push) n k' where
      "n \<in> set (getValidNeighbors cfg (last (st_path s)) (st_visited s) (st_path s))"
      "chooseNextTile cfg rnd (st_draws s)
         (getValidNeighbors cfg (last (st_path s)) (st_visited s) (st_path s))
         (st_visited s) (st_path s) = (Inr n, k')"
      "s' = s\<lparr>st_path := st_path s @ [n], st_visited := insert n (st_visited s),
              st_draws := k'\<rparr>"
proof -
  let ?p = "st_path s"
  let ?nb = "getValidNeighbors cfg (last ?p) (st_visited s) ?p"
  from assms(2) have cur: "arrayGet ?p (int (length ?p) - 1) = Some (last ?p)"
    by (simp add: arrayGet_def last_conv_nth nat_diff_distrib')
  show thesis
  proof (cases "?nb = []")
    case True
    with assms(1) cur show thesis
      by (intro pop) (auto simp: attemptStep_def Let_def split: if_splits)
  next
    case False
    from chooseNextTile_member [OF False, of cfg rnd "st_draws s" "st_visited s" ?p]
    obtain n k' where n: "n \<in> set ?nb"
      and c: "chooseNextTile cfg rnd (st_draws s) ?nb (st_visited s) ?p = (Inr n, k')"
      by blast
    with assms(1) cur False have "s' = s\<lparr>st_path := ?p @ [n],
        st_visited := insert n (st_visited s), st_draws := k'\<rparr>"
      by (auto simp: attemptStep_def Let_def split: if_splits)
    with n c show thesis by (rule push)
  qed
qed

lemma lockStep_step:
  assumes "attemptStep cfg rnd s = Continue s'" "lockStep s"
  shows "lockStep s'"
proof -
  from assms(2) have ne: "st_path s \<noteq> []" and vis: "st_visited s = set (st_path s)"
    and dist: "distinct (st_path s)" by (simp_all add: lockStep_def)
  from assms(1) ne show ?thesis
  proof (cases rule: attemptStep_cases)
    case pop
    from pop(2) have "butlast (st_path s) \<noteq> []" by (cases "st_path s" rule: rev_cases) auto
    moreover have "set (st_path s) - {last (st_path s)} = set (butlast (st_path s))"
      using ne dist by (cases "st_path s" rule: rev_cases) auto
    ultimately show ?thesis using pop(3) vis dist by (simp add: lockStep_def distinct_butlast)
  next
    case (push n k')
    from getValidNeighbors_sound(3) [OF push(1)] have "n \<notin> set (st_path s)" using vis by simp
    with push(3) vis dist show ?thesis by (simp add: lockStep_def)
  qed
qed

lemma threadInvariant_step:
  assumes "attemptStep cfg rnd s = Continue s'" "threadInvariant cfg s"
  shows "threadInvariant cfg s'"
proof -
  let ?p = "st_path s"
  from assms(2) have ls: "lockStep s" and adj: "consecutiveAdjacent cfg ?p"
    and nt: "noTouching cfg ?p" by (simp_all add: threadInvariant_def)
  from ls have ne: "?p \<noteq> []" by (simp add: lockStep_def)
  from lockStep_step [OF assms(1) ls] have ls': "lockStep s'" .
  from assms(1) ne show ?thesis
  proof (cases rule: attemptStep_cases)
    case pop
    with ls' adj nt show ?thesis
      by (simp add: threadInvariant_def consecutiveAdjacent_butlast noTouching_butlast)
  next
    case (push n k')
    note snd = getValidNeighbors_sound [OF push(1)]
    have adj': "consecutiveAdjacent cfg (?p @ [n])"
      using adj ne snd(4) by (rule consecutiveAdjacent_snoc)
    have far: "\<forall>c \<in> set (butlast ?p). manhattan cfg n c \<noteq> 1"
    proof (cases "3 \<le> length ?p")
      case True
      then show ?thesis by (rule snd(5))
    next
      case False
      show ?thesis
      proof
        fix c assume c: "c \<in> set (butlast ?p)"
        then have "butlast ?p \<noteq> []" by (cases "butlast ?p") auto
        then have "length (butlast ?p) \<noteq> 0" by (simp only: length_0_conv not_False_eq_True)
        moreover have "length (butlast ?p) = length ?p - 1" by (rule length_butlast)
        ultimately have "2 \<le> length ?p" by linarith
        with False have len: "length ?p = 2" by linarith
        then obtain a b where p: "?p = [a, b]"
          by (cases ?p; cases "tl ?p") auto
        with c have "c = a" by simp
        from adj p have "manhattan cfg a b = 1" by (simp add: consecutiveAdjacent_def)
        moreover from snd(4) p have "manhattan cfg b n = 1" by simp
        ultimately have "manhattan cfg a n \<noteq> 1" by (rule manhattan_parity)
        with \<open>c = a\<close> show "manhattan cfg n c \<noteq> 1" by (simp add: manhattan_sym)
      qed
    qed
    have "noTouching cfg (?p @ [n])" using nt far by (rule noTouching_snoc)
    with adj' ls' push(3) show ?thesis by (simp add: threadInvariant_def)
  qed
qed

section \<open>What the loops return\<close>

lemma loopStates_invariant:
  assumes "loopStates step n s = Some s'" "P s"
    and "\<And>a b. P a \<Longrightarrow> step a = Continue b \<Longrightarrow> P b"
  shows "P s'"
  using assms(1,2)
proof (induction n arbitrary: s)
  case 0
  then show ?case by simp
next
  case (Suc n)
  from Suc.prems(1) obtain s1 where s1: "step s = Continue s1" "loopStates step n s1 = Some s'"
    by (auto split: loop_step.splits)
  from assms(3) [OF Suc.prems(2) s1(1)] have "P s1" .
  with Suc.IH s1(2) show ?case by blast
qed

lemma attemptLoop_returns:
  "\<exists>n s'. loopStates (attemptStep cfg rnd) n s = Some s'
          \<and> attemptStep cfg rnd s' = Return (attemptLoop cfg rnd s)"
proof (induction cfg rnd s rule: attemptLoop.induct)
  case (1 cfg rnd s)
  show ?case
  proof (cases "attemptStep cfg rnd s")
    case (Continue s1)
    from 1 [OF Continue] obtain n s' where
      "loopStates (attemptStep cfg rnd) n s1 = Some s'"
      "attemptStep cfg rnd s' = Return (attemptLoop cfg rnd s1)" by blast
    moreover have "attemptLoop cfg rnd s = attemptLoop cfg rnd s1"
      using Continue by (simp add: attemptLoop.simps [of cfg rnd s])
    ultimately have "loopStates (attemptStep cfg rnd) (Suc n) s = Some s'
        \<and> attemptStep cfg rnd s' = Return (attemptLoop cfg rnd s)"
      using Continue by simp
    then show ?thesis by blast
  next
    case (Return r)
    then have "attemptLoop cfg rnd s = r" by (simp add: attemptLoop.simps [of cfg rnd s])
    with Return have "loopStates (attemptStep cfg rnd) 0 s = Some s
        \<and> attemptStep cfg rnd s = Return (attemptLoop cfg rnd s)" by simp
    then show ?thesis by blast
  qed
qed

lemma snakeLoop_returns:
  "\<exists>n s'. loopStates (snakeStep cfg) n s = Some s'
          \<and> snakeStep cfg s' = Return (snakeLoop cfg s)"
proof (induction cfg s rule: snakeLoop.induct)
  case (1 cfg s)
  show ?case
  proof (cases "snakeStep cfg s")
    case (Continue s1)
    from 1 [OF Continue] obtain n s' where
      "loopStates (snakeStep cfg) n s1 = Some s'"
      "snakeStep cfg s' = Return (snakeLoop cfg s1)" by blast
    moreover have "snakeLoop cfg s = snakeLoop cfg s1"
      using Continue by (simp add: snakeLoop.simps [of cfg s])
    ultimately have "loopStates (snakeStep cfg) (Suc n) s = Some s'
        \<and> snakeStep cfg s' = Return (snakeLoop cfg s)"
      using Continue by simp
    then show ?thesis by blast
  next
    case (Return r)
    then have "snakeLoop cfg s = r" by (simp add: snakeLoop.simps [of cfg s])
    with Return have "loopStates (snakeStep cfg) 0 s = Some s
        \<and> snakeStep cfg s = Return (snakeLoop cfg s)" by simp
    then show ?thesis by blast
  qed
qed

lemma generateLoop_returns:
  "\<exists>n g'. loopStates (generateStep cfg rnd) n g = Some g'
          \<and> generateStep cfg rnd g' = Return (generateLoop cfg rnd g)"
proof (induction cfg rnd g rule: generateLoop.induct)
  case (1 cfg rnd g)
  show ?case
  proof (cases "generateStep cfg rnd g")
    case (Continue g1)
    from 1 [OF Continue] obtain n g' where
      "loopStates (generateStep cfg rnd) n g1 = Some g'"
      "generateStep cfg rnd g' = Return (generateLoop cfg rnd g1)" by blast
    moreover have "generateLoop cfg rnd g = generateLoop cfg rnd g1"
      using Continue by (simp add: generateLoop.simps [of cfg rnd g])
    ultimately have "loopStates (generateStep cfg rnd) (Suc n) g = Some g'
        \<and> generateStep cfg rnd g' = Return (generateLoop cfg rnd g)"
      using Continue by simp
    then show ?thesis by blast
  next
    case (Return r)
    then have "generateLoop cfg rnd g = r" by (simp add: generateLoop.simps [of cfg rnd g])
    with Return have "loopStates (generateStep cfg rnd) 0 g = Some g
        \<and> generateStep cfg rnd g = Return (generateLoop cfg rnd g)" by simp
    then show ?thesis by blast
  qed
qed

text \<open>What the loop of an attempt returns, from a state in lock-step.\<close>

lemma attemptStep_Return:
  assumes "attemptStep cfg rnd s = Return (out, k')" "st_path s \<noteq> []"
  shows "out = Null \<or> (out = Path (st_path s) \<and> int (length (st_path s)) = PATH_LENGTH cfg)"
proof -
  let ?p = "st_path s"
  let ?nb = "getValidNeighbors cfg (last ?p) (st_visited s) ?p"
  from assms(2) have cur: "arrayGet ?p (int (length ?p) - 1) = Some (last ?p)"
    by (simp add: arrayGet_def last_conv_nth nat_diff_distrib')
  show ?thesis
  proof (cases "?nb = []")
    case True
    with assms(1) cur show ?thesis
      by (auto simp: attemptStep_def Let_def split: if_splits)
  next
    case False
    from chooseNextTile_member [OF False, of cfg rnd "st_draws s" "st_visited s" ?p]
    obtain n k1 where
      "chooseNextTile cfg rnd (st_draws s) ?nb (st_visited s) ?p = (Inr n, k1)" by blast
    with assms(1) cur False show ?thesis
      by (auto simp: attemptStep_def Let_def split: if_splits)
  qed
qed

lemma attemptLoop_result:
  assumes "threadInvariant cfg s"
  shows "fst (attemptLoop cfg rnd s) = Null
     \<or> (\<exists>p. fst (attemptLoop cfg rnd s) = Path p \<and> int (length p) = PATH_LENGTH cfg
            \<and> p \<noteq> [] \<and> distinct p \<and> consecutiveAdjacent cfg p \<and> noTouching cfg p)"
proof -
  from attemptLoop_returns [of cfg rnd s] obtain n s' where
    st: "loopStates (attemptStep cfg rnd) n s = Some s'"
    and ret: "attemptStep cfg rnd s' = Return (attemptLoop cfg rnd s)" by blast
  from st assms have inv: "threadInvariant cfg s'"
    by (rule loopStates_invariant) (rule threadInvariant_step)
  then have ne: "st_path s' \<noteq> []" by (simp add: threadInvariant_def lockStep_def)
  obtain out k' where r: "attemptLoop cfg rnd s = (out, k')" by (cases "attemptLoop cfg rnd s")
  from attemptStep_Return [OF ret [unfolded r] ne] inv r show ?thesis
    by (auto simp: threadInvariant_def lockStep_def)
qed

section \<open>Concrete runs\<close>

text \<open>
  The facts that evaluate the search on numerals, and a run on the small grid.
\<close>

lemmas search_eval = attemptPathGeneration_def attemptInit_def attemptStep_def attemptLoop.simps
  chooseNextTile_def scoreNeighbors_def getValidNeighbors_def wouldCreateLoop_def directions_def
  arrayGet_def arrayRead_def floorRandomTimes_fraction smod_nonneg maxBacktracks_def Let_def

lemma tiny_attempt:
  "attemptPathGeneration tinyConfig zeroDraws 0 = (Path [5, 9, 13], 4)"
  by (simp add: tinyConfig_def zeroDraws_def search_eval)

lemma attemptPathGeneration_result:
  "fst (attemptPathGeneration cfg rnd k) = Null
     \<or> (\<exists>p. fst (attemptPathGeneration cfg rnd k) = Path p \<and> int (length p) = PATH_LENGTH cfg
            \<and> p \<noteq> [] \<and> distinct p \<and> consecutiveAdjacent cfg p \<and> noTouching cfg p)"
  unfolding attemptPathGeneration_def
  by (rule attemptLoop_result) (rule threadInvariant_init)

section \<open>The snake path and the result of generatePath\<close>

lemma consecutiveAdjacent_snoc':
  assumes "consecutiveAdjacent cfg p" "p = [] \<or> manhattan cfg (last p) n = 1"
  shows "consecutiveAdjacent cfg (p @ [n])"
proof (cases "p = []")
  case True
  then show ?thesis by (simp add: consecutiveAdjacent_single)
next
  case False
  with assms show ?thesis by (intro consecutiveAdjacent_snoc) auto
qed

lemma snakeInvariant_init:
  "0 < GRID_WIDTH cfg \<Longrightarrow>
     snakeInvariant cfg \<lparr>sn_path = [], sn_x = 0, sn_y = 0, sn_direction = 1\<rparr>"
  by (simp add: snakeInvariant_def consecutiveAdjacent_def)

lemma snakeInvariant_step:
  assumes "snakeStep cfg s = Continue s'" "snakeInvariant cfg s"
  shows "snakeInvariant cfg s'"
proof -
  let ?W = "GRID_WIDTH cfg"
  let ?idx = "sn_y s * ?W + sn_x s"
  from assms(2) have x: "0 \<le> sn_x s" "sn_x s < ?W" and y: "0 \<le> sn_y s"
    and d: "\<bar>sn_direction s\<bar> = 1" and adj: "consecutiveAdjacent cfg (sn_path s)"
    and cur: "sn_path s = [] \<or> manhattan cfg (last (sn_path s)) ?idx = 1"
    by (simp_all add: snakeInvariant_def)
  from x have w: "0 < ?W" by linarith
  have adj': "consecutiveAdjacent cfg (sn_path s @ [?idx])"
    using adj cur by (rule consecutiveAdjacent_snoc')
  have cx: "tileX cfg ?idx = sn_x s" and cy: "tileY cfg ?idx = sn_y s"
    using w x y by (simp_all add: cell_coordinates)
  from assms(1) consider
      (along) "0 \<le> sn_x s + sn_direction s" "sn_x s + sn_direction s < ?W"
        "s' = s\<lparr>sn_path := sn_path s @ [?idx], sn_x := sn_x s + sn_direction s\<rparr>"
    | (down) "s' = s\<lparr>sn_path := sn_path s @ [?idx], sn_y := sn_y s + 1,
                        sn_direction := sn_direction s * (-1)\<rparr>"
    by (auto simp: snakeStep_def Let_def split: if_splits)
  then show ?thesis
  proof cases
    case along
    have "tileX cfg (sn_y s * ?W + (sn_x s + sn_direction s)) = sn_x s + sn_direction s"
      and "tileY cfg (sn_y s * ?W + (sn_x s + sn_direction s)) = sn_y s"
      using w along(1,2) y by (simp_all add: cell_coordinates)
    then have "manhattan cfg ?idx (sn_y s * ?W + (sn_x s + sn_direction s)) = 1"
      using d by (simp add: manhattan_def cx cy)
    with along adj' x y d show ?thesis by (simp add: snakeInvariant_def)
  next
    case down
    have "tileX cfg ((sn_y s + 1) * ?W + sn_x s) = sn_x s"
      and "tileY cfg ((sn_y s + 1) * ?W + sn_x s) = sn_y s + 1"
      using w x y by (simp_all add: cell_coordinates)
    then have "manhattan cfg ?idx ((sn_y s + 1) * ?W + sn_x s) = 1"
      by (simp add: manhattan_def cx cy)
    with down adj' x y d show ?thesis by (simp add: snakeInvariant_def)
  qed
qed

lemma snakeStep_Return:
  assumes "snakeStep cfg s = Return r" "snakeInvariant cfg s"
  shows "consecutiveAdjacent cfg r"
proof -
  let ?idx = "sn_y s * GRID_WIDTH cfg + sn_x s"
  from assms(2) have adj: "consecutiveAdjacent cfg (sn_path s)"
    and cur: "sn_path s = [] \<or> manhattan cfg (last (sn_path s)) ?idx = 1"
    by (simp_all add: snakeInvariant_def)
  have "consecutiveAdjacent cfg (sn_path s @ [?idx])"
    using adj cur by (rule consecutiveAdjacent_snoc')
  moreover from assms(1) have "r = sn_path s \<or> r = sn_path s @ [?idx]"
    by (auto simp: snakeStep_def Let_def split: if_splits)
  ultimately show ?thesis using adj by auto
qed

lemma generateSnakePath_adjacent:
  assumes "0 < GRID_WIDTH cfg"
  shows "consecutiveAdjacent cfg (generateSnakePath cfg)"
proof -
  let ?s0 = "\<lparr>sn_path = [], sn_x = 0, sn_y = 0, sn_direction = 1\<rparr>"
  from snakeLoop_returns [of cfg ?s0] obtain n s' where
    st: "loopStates (snakeStep cfg) n ?s0 = Some s'"
    and ret: "snakeStep cfg s' = Return (snakeLoop cfg ?s0)" by blast
  from st snakeInvariant_init [OF assms] have "snakeInvariant cfg s'"
    by (rule loopStates_invariant) (rule snakeInvariant_step)
  with ret show ?thesis unfolding generateSnakePath_def by (rule snakeStep_Return)
qed

text \<open>Every tile of the searched path is on the grid, when the start tile is.\<close>

lemma attemptInit_start:
  assumes "2 \<le> GRID_WIDTH cfg" "2 \<le> GRID_HEIGHT cfg"
  shows "\<exists>x y. st_path (attemptInit cfg rnd k) = [y * GRID_WIDTH cfg + x]
           \<and> 1 \<le> x \<and> x \<le> max 1 (GRID_WIDTH cfg - 2)
           \<and> 1 \<le> y \<and> y \<le> max 1 (GRID_HEIGHT cfg - 2)"
proof -
  have b: "0 \<le> floorRandomTimes u (n - 2) \<and> 1 + floorRandomTimes u (n - 2) \<le> max 1 (n - 2)"
    if "2 \<le> n" for u n
  proof (cases "n = 2")
    case True
    then show ?thesis by (simp add: floorRandomTimes_zero)
  next
    case False
    with that have "0 < n - 2" by simp
    from floorRandomTimes_bounds [OF this, of u] show ?thesis by simp
  qed
  let ?x = "1 + floorRandomTimes (rnd k) (GRID_WIDTH cfg - 2)"
  let ?y = "1 + floorRandomTimes (rnd (Suc k)) (GRID_HEIGHT cfg - 2)"
  have "st_path (attemptInit cfg rnd k) = [?y * GRID_WIDTH cfg + ?x]"
    by (simp add: attemptInit_def Let_def)
  moreover from b [OF assms(1), of "rnd k"]
  have "1 \<le> ?x \<and> ?x \<le> max 1 (GRID_WIDTH cfg - 2)" by simp
  moreover from b [OF assms(2), of "rnd (Suc k)"]
  have "1 \<le> ?y \<and> ?y \<le> max 1 (GRID_HEIGHT cfg - 2)" by simp
  ultimately show ?thesis by blast
qed

lemma attemptInit_inGrid:
  assumes "2 \<le> GRID_WIDTH cfg" "2 \<le> GRID_HEIGHT cfg"
  shows "\<forall>c \<in> set (st_path (attemptInit cfg rnd k)). inGrid cfg c"
proof -
  from attemptInit_start [OF assms, of rnd k] obtain x y where
    p: "st_path (attemptInit cfg rnd k) = [y * GRID_WIDTH cfg + x]"
    and x: "1 \<le> x" "x \<le> max 1 (GRID_WIDTH cfg - 2)"
    and y: "1 \<le> y" "y \<le> max 1 (GRID_HEIGHT cfg - 2)" by blast
  from x assms have x': "0 \<le> x" "x < GRID_WIDTH cfg" by simp_all
  from y assms have y': "0 \<le> y" "y < GRID_HEIGHT cfg" by simp_all
  from cell_in_grid [OF x' y'] show ?thesis by (simp add: p inGrid_def)
qed

lemma inGrid_step:
  assumes "attemptStep cfg rnd s = Continue s'" "st_path s \<noteq> []"
    "\<forall>c \<in> set (st_path s). inGrid cfg c"
  shows "\<forall>c \<in> set (st_path s'). inGrid cfg c"
  using assms(1,2)
proof (cases rule: attemptStep_cases)
  case pop
  with assms(3) show ?thesis by (auto dest: in_set_butlastD)
next
  case (push n k')
  from getValidNeighbors_sound(1,2) [OF push(1)] have "inGrid cfg n" by (simp add: inGrid_def)
  with push(3) assms(3) show ?thesis by simp
qed

lemma attemptPathGeneration_inGrid:
  assumes "2 \<le> GRID_WIDTH cfg" "2 \<le> GRID_HEIGHT cfg"
    "fst (attemptPathGeneration cfg rnd k) = Path p"
  shows "\<forall>c \<in> set p. inGrid cfg c"
proof -
  let ?P = "\<lambda>s. lockStep s \<and> (\<forall>c \<in> set (st_path s). inGrid cfg c)"
  let ?s0 = "attemptInit cfg rnd k"
  from attemptLoop_returns [of cfg rnd ?s0] obtain n s' where
    st: "loopStates (attemptStep cfg rnd) n ?s0 = Some s'"
    and ret: "attemptStep cfg rnd s' = Return (attemptLoop cfg rnd ?s0)" by blast
  have "?P ?s0" using lockStep_init attemptInit_inGrid [OF assms(1,2)] by blast
  with st have inv: "?P s'"
  proof (rule loopStates_invariant)
    fix a b assume "?P a" "attemptStep cfg rnd a = Continue b"
    then show "?P b" using lockStep_step inGrid_step by (metis lockStep_def)
  qed
  then have ne: "st_path s' \<noteq> []" by (simp add: lockStep_def)
  obtain out k' where r: "attemptLoop cfg rnd ?s0 = (out, k')"
    by (cases "attemptLoop cfg rnd ?s0")
  with assms(3) have "out = Path p" by (simp add: attemptPathGeneration_def)
  with attemptStep_Return [OF ret [unfolded r] ne] have "p = st_path s'" by simp
  with inv show ?thesis by simp
qed

text \<open>What \<open>generatePath\<close> returns: a searched path or the snake path.\<close>

lemma generatePath_result:
  "\<exists>p. fst (generatePath cfg rnd k) = Inr p
      \<and> (p = generateSnakePath cfg
          \<or> (\<exists>k0. fst (attemptPathGeneration cfg rnd k0) = Path p))"
proof -
  let ?g0 = "\<lparr>gen_attempts = 0, gen_draws = k\<rparr>"
  obtain R where R: "generateLoop cfg rnd ?g0 = R" by simp
  from generateLoop_returns [of cfg rnd ?g0] obtain n g' where
    ret: "generateStep cfg rnd g' = Return R" unfolding R by blast
  let ?a = "attemptPathGeneration cfg rnd (gen_draws g')"
  from attemptPathGeneration_result [of cfg rnd "gen_draws g'"]
  have nofault: "fst ?a = Null \<or> (\<exists>p. fst ?a = Path p)" by blast
  obtain out k1 where a: "?a = (out, k1)" by (cases ?a)
  have "\<exists>p. fst R = Inr p
      \<and> (p = generateSnakePath cfg \<or> (\<exists>k0. fst (attemptPathGeneration cfg rnd k0) = Path p))"
  proof (cases "gen_attempts g' < maxAttempts")
    case False
    with ret have "R = (Inr (generateSnakePath cfg), gen_draws g')"
      by (simp add: generateStep_def)
    then show ?thesis by simp
  next
    case True
    from nofault a consider "out = Null" | p where "out = Path p" by auto
    then show ?thesis
    proof cases
      case 1
      with ret a True show ?thesis by (simp add: generateStep_def)
    next
      case (2 p)
      with ret a True have "R = (Inr p, k1)"
        by (simp add: generateStep_def split: if_splits)
      moreover from a 2 have "fst (attemptPathGeneration cfg rnd (gen_draws g')) = Path p"
        by simp
      ultimately show ?thesis by auto
    qed
  qed
  then show ?thesis unfolding generatePath_def R .
qed

lemmas snake_eval = generateSnakePath_def snakeLoop.simps snakeStep_def Let_def

lemma desktop_snake:
  "generateSnakePath desktopConfig =
     [0, 1, 2, 3, 4, 5, 6, 7, 8, 9, 10, 11,
      23, 22, 21, 20, 19, 18, 17, 16, 15, 14, 13, 12,
      24, 25, 26, 27, 28, 29, 30, 31, 32, 33, 34, 35]"
  by (simp add: desktopConfig_def snake_eval)

lemma desktop_snake_valid:
  "length (generateSnakePath desktopConfig) = 36"
  "distinct (generateSnakePath desktopConfig)"
  "\<forall>c \<in> set (generateSnakePath desktopConfig). 0 \<le> c \<and> c < 96"
  unfolding desktop_snake by simp_all

section \<open>How often the body of a loop runs\<close>

lemma loopStates_count:
  assumes "loopStates step n s = Some s'" "P s"
    and "\<And>a b. P a \<Longrightarrow> step a = Continue b \<Longrightarrow> P b \<and> f b = Suc (f a)"
  shows "P s' \<and> f s' = f s + n"
  using assms(1,2)
proof (induction n arbitrary: s)
  case 0
  then show ?case by simp
next
  case (Suc n)
  from Suc.prems(1) obtain s1 where s1: "step s = Continue s1" "loopStates step n s1 = Some s'"
    by (auto split: loop_step.splits)
  from assms(3) [OF Suc.prems(2) s1(1)] have "P s1" "f s1 = Suc (f s)" by simp_all
  with Suc.IH [OF s1(2)] show ?case by simp
qed

lemma attemptBounds_step:
  assumes "attemptBounds cfg a" "attemptStep cfg rnd a = Continue b"
  shows "attemptBounds cfg b
     \<and> length (st_path b) + 2 * st_backtrackCount b
         = Suc (length (st_path a) + 2 * st_backtrackCount a)"
proof -
  from assms(1) have ne: "st_path a \<noteq> []" and bc: "st_backtrackCount a \<le> maxBacktracks"
    and len: "length (st_path a) \<le> max 1 (nat (PATH_LENGTH cfg))"
    by (simp_all add: attemptBounds_def)
  from assms(2) have run: "int (length (st_path a)) < PATH_LENGTH cfg"
    "st_backtrackCount a < maxBacktracks"
    by (auto simp: attemptStep_def split: if_splits)
  from assms(2) ne show ?thesis
  proof (cases rule: attemptStep_cases)
    case pop
    from pop(2) have "butlast (st_path a) \<noteq> []"
      by (cases "st_path a" rule: rev_cases) auto
    moreover from pop(3) have "st_path b = butlast (st_path a)"
      "st_backtrackCount b = st_backtrackCount a + 1" by simp_all
    moreover have "length (butlast (st_path a)) + 2 * (st_backtrackCount a + 1)
        = Suc (length (st_path a) + 2 * st_backtrackCount a)"
      using pop(2) by simp
    moreover have "length (butlast (st_path a)) \<le> max 1 (nat (PATH_LENGTH cfg))"
      using len by simp
    moreover have "st_backtrackCount a + 1 \<le> maxBacktracks" using run(2) by simp
    ultimately show ?thesis by (simp only: attemptBounds_def) blast
  next
    case (push n k')
    from run(1) have "Suc (length (st_path a)) \<le> nat (PATH_LENGTH cfg)" by linarith
    with push bc show ?thesis by (simp add: attemptBounds_def)
  qed
qed

lemma attemptBounds_init: "attemptBounds cfg (attemptInit cfg rnd k)"
  by (simp add: attemptBounds_def attemptInit_def Let_def)

lemma snakeBounds_step:
  assumes "length (sn_path a) \<le> nat (PATH_LENGTH cfg)" "snakeStep cfg a = Continue b"
  shows "length (sn_path b) \<le> nat (PATH_LENGTH cfg) \<and> length (sn_path b) = Suc (length (sn_path a))"
  using assms(2) by (auto simp: snakeStep_def Let_def split: if_splits)

lemma generateBounds_step:
  assumes "gen_attempts a \<le> maxAttempts" "generateStep cfg rnd a = Continue b"
  shows "gen_attempts b \<le> maxAttempts \<and> gen_attempts b = Suc (gen_attempts a)"
  using assms(2)
  by (auto simp: generateStep_def split: if_splits prod.splits attempt_outcome.splits)

section \<open>The draws a run reads\<close>

text \<open>
  The draws a function reads are those between the count it is given and the count it
  returns: two random sources that agree there give the same result.
\<close>

lemma chooseNextTile_draws:
  "k \<le> snd (chooseNextTile cfg rnd k nb vis p) \<and> snd (chooseNextTile cfg rnd k nb vis p) \<le> Suc k"
  by (simp add: chooseNextTile_def Let_def)

lemma chooseNextTile_frame:
  assumes "\<forall>i. k \<le> i \<and> i < snd (chooseNextTile cfg r1 k nb vis p) \<longrightarrow> r1 i = r2 i"
  shows "chooseNextTile cfg r2 k nb vis p = chooseNextTile cfg r1 k nb vis p"
proof (cases "length nb = 1")
  case True
  then show ?thesis by (simp add: chooseNextTile_def)
next
  case False
  then have "snd (chooseNextTile cfg r1 k nb vis p) = Suc k"
    by (simp add: chooseNextTile_def Let_def)
  with assms have "r1 k = r2 k" by simp
  then show ?thesis by (simp add: chooseNextTile_def Let_def)
qed

lemma attemptStep_draws: "st_draws s \<le> stepDraws (attemptStep cfg rnd s)"
  using chooseNextTile_draws [of "st_draws s" cfg rnd]
  by (auto simp: attemptStep_def Let_def split: option.splits prod.splits sum.splits)
     (metis snd_conv)+

lemma attemptStep_frame:
  assumes "\<forall>i. st_draws s \<le> i \<and> i < stepDraws (attemptStep cfg r1 s) \<longrightarrow> r1 i = r2 i"
  shows "attemptStep cfg r2 s = attemptStep cfg r1 s"
proof -
  let ?p = "st_path s"
  show ?thesis
  proof (cases "int (length ?p) < PATH_LENGTH cfg \<and> st_backtrackCount s < maxBacktracks")
    case False
    then show ?thesis by (auto simp: attemptStep_def)
  next
    case run: True
    show ?thesis
    proof (cases "arrayGet ?p (int (length ?p) - 1)")
      case None
      with run show ?thesis by (simp add: attemptStep_def)
    next
      case (Some current)
      let ?nb = "getValidNeighbors cfg current (st_visited s) ?p"
      show ?thesis
      proof (cases "length ?nb = 0")
        case True
        with run Some show ?thesis by (simp add: attemptStep_def Let_def)
      next
        case False
        let ?c = "chooseNextTile cfg r1 (st_draws s) ?nb (st_visited s) ?p"
        from run Some False have "stepDraws (attemptStep cfg r1 s) = snd ?c"
          by (cases ?c) (auto simp: attemptStep_def Let_def split: sum.splits)
        with assms have "chooseNextTile cfg r2 (st_draws s) ?nb (st_visited s) ?p = ?c"
          by (intro chooseNextTile_frame) simp
        with run Some False show ?thesis by (simp add: attemptStep_def Let_def)
      qed
    qed
  qed
qed

lemma attemptLoop_frame:
  "st_draws s \<le> snd (attemptLoop cfg r1 s)
   \<and> ((\<forall>i. st_draws s \<le> i \<and> i < snd (attemptLoop cfg r1 s) \<longrightarrow> r1 i = r2 i)
        \<longrightarrow> attemptLoop cfg r2 s = attemptLoop cfg r1 s)"
proof (induction cfg r1 s rule: attemptLoop.induct)
  case (1 cfg r1 s)
  show ?case
  proof (cases "attemptStep cfg r1 s")
    case (Return r)
    then have loop: "attemptLoop cfg r1 s = r" by (simp add: attemptLoop.simps [of cfg r1 s])
    from attemptStep_draws [of s cfg r1] Return have mono: "st_draws s \<le> snd r" by simp
    have "attemptLoop cfg r2 s = r"
      if "\<forall>i. st_draws s \<le> i \<and> i < snd r \<longrightarrow> r1 i = r2 i"
    proof -
      from that Return have "attemptStep cfg r2 s = attemptStep cfg r1 s"
        by (intro attemptStep_frame) simp
      with Return show ?thesis by (simp add: attemptLoop.simps [of cfg r2 s])
    qed
    with mono loop show ?thesis by simp
  next
    case (Continue s1)
    then have loop: "attemptLoop cfg r1 s = attemptLoop cfg r1 s1"
      by (simp add: attemptLoop.simps [of cfg r1 s])
    from attemptStep_draws [of s cfg r1] Continue have d: "st_draws s \<le> st_draws s1" by simp
    from 1 [OF Continue] have mono1: "st_draws s1 \<le> snd (attemptLoop cfg r1 s1)"
      and ih: "(\<forall>i. st_draws s1 \<le> i \<and> i < snd (attemptLoop cfg r1 s1) \<longrightarrow> r1 i = r2 i)
        \<Longrightarrow> attemptLoop cfg r2 s1 = attemptLoop cfg r1 s1" by blast+
    have "attemptLoop cfg r2 s = attemptLoop cfg r1 s1"
      if agree: "\<forall>i. st_draws s \<le> i \<and> i < snd (attemptLoop cfg r1 s1) \<longrightarrow> r1 i = r2 i"
    proof -
      from agree mono1 Continue have "attemptStep cfg r2 s = attemptStep cfg r1 s"
        by (intro attemptStep_frame) simp
      with Continue have "attemptLoop cfg r2 s = attemptLoop cfg r2 s1"
        by (simp add: attemptLoop.simps [of cfg r2 s])
      moreover from agree d have "attemptLoop cfg r2 s1 = attemptLoop cfg r1 s1"
        by (intro ih) simp
      ultimately show ?thesis by simp
    qed
    with d mono1 loop show ?thesis by simp
  qed
qed

lemma attemptPathGeneration_frame:
  "Suc (Suc k) \<le> snd (attemptPathGeneration cfg r1 k)
   \<and> ((\<forall>i. k \<le> i \<and> i < snd (attemptPathGeneration cfg r1 k) \<longrightarrow> r1 i = r2 i)
        \<longrightarrow> attemptPathGeneration cfg r2 k = attemptPathGeneration cfg r1 k)"
proof -
  let ?s = "attemptInit cfg r1 k"
  have d: "st_draws ?s = Suc (Suc k)" by (simp add: attemptInit_def Let_def)
  from attemptLoop_frame [of ?s cfg r1 r2]
  have mono: "Suc (Suc k) \<le> snd (attemptLoop cfg r1 ?s)"
    and fr: "(\<forall>i. Suc (Suc k) \<le> i \<and> i < snd (attemptLoop cfg r1 ?s) \<longrightarrow> r1 i = r2 i)
        \<Longrightarrow> attemptLoop cfg r2 ?s = attemptLoop cfg r1 ?s"
    unfolding d by blast+
  have "attemptLoop cfg r2 (attemptInit cfg r2 k) = attemptLoop cfg r1 ?s"
    if agree: "\<forall>i. k \<le> i \<and> i < snd (attemptLoop cfg r1 ?s) \<longrightarrow> r1 i = r2 i"
  proof -
    from agree mono have "r1 k = r2 k" "r1 (Suc k) = r2 (Suc k)" by simp_all
    then have "attemptInit cfg r2 k = ?s" by (simp add: attemptInit_def)
    moreover from agree have "attemptLoop cfg r2 ?s = attemptLoop cfg r1 ?s"
      by (intro fr) simp
    ultimately show ?thesis by simp
  qed
  with mono show ?thesis by (simp add: attemptPathGeneration_def)
qed

lemma generateStep_draws: "gen_draws g \<le> generateStepDraws (generateStep cfg rnd g)"
proof -
  from attemptPathGeneration_frame [of "gen_draws g" cfg rnd rnd]
  have "gen_draws g \<le> snd (attemptPathGeneration cfg rnd (gen_draws g))" by simp
  then show ?thesis
    by (cases "attemptPathGeneration cfg rnd (gen_draws g)")
       (auto simp: generateStep_def split: attempt_outcome.splits)
qed

lemma generateStep_frame:
  assumes "\<forall>i. gen_draws g \<le> i \<and> i < generateStepDraws (generateStep cfg r1 g) \<longrightarrow> r1 i = r2 i"
  shows "generateStep cfg r2 g = generateStep cfg r1 g"
proof (cases "gen_attempts g < maxAttempts")
  case False
  then show ?thesis by (simp add: generateStep_def)
next
  case True
  let ?a = "attemptPathGeneration cfg r1 (gen_draws g)"
  from True have "generateStepDraws (generateStep cfg r1 g) = snd ?a"
    by (cases ?a) (auto simp: generateStep_def split: attempt_outcome.splits)
  with assms attemptPathGeneration_frame [of "gen_draws g" cfg r1 r2]
  have "attemptPathGeneration cfg r2 (gen_draws g) = ?a" by simp
  then show ?thesis by (simp add: generateStep_def)
qed

lemma generateLoop_frame:
  "gen_draws g \<le> snd (generateLoop cfg r1 g)
   \<and> ((\<forall>i. gen_draws g \<le> i \<and> i < snd (generateLoop cfg r1 g) \<longrightarrow> r1 i = r2 i)
        \<longrightarrow> generateLoop cfg r2 g = generateLoop cfg r1 g)"
proof (induction cfg r1 g rule: generateLoop.induct)
  case (1 cfg r1 g)
  show ?case
  proof (cases "generateStep cfg r1 g")
    case (Return r)
    then have loop: "generateLoop cfg r1 g = r" by (simp add: generateLoop.simps [of cfg r1 g])
    from generateStep_draws [of g cfg r1] Return have mono: "gen_draws g \<le> snd r" by simp
    have "generateLoop cfg r2 g = r"
      if "\<forall>i. gen_draws g \<le> i \<and> i < snd r \<longrightarrow> r1 i = r2 i"
    proof -
      from that Return have "generateStep cfg r2 g = generateStep cfg r1 g"
        by (intro generateStep_frame) simp
      with Return show ?thesis by (simp add: generateLoop.simps [of cfg r2 g])
    qed
    with mono loop show ?thesis by simp
  next
    case (Continue g1)
    then have loop: "generateLoop cfg r1 g = generateLoop cfg r1 g1"
      by (simp add: generateLoop.simps [of cfg r1 g])
    from generateStep_draws [of g cfg r1] Continue have d: "gen_draws g \<le> gen_draws g1" by simp
    from 1 [OF Continue] have mono1: "gen_draws g1 \<le> snd (generateLoop cfg r1 g1)"
      and ih: "(\<forall>i. gen_draws g1 \<le> i \<and> i < snd (generateLoop cfg r1 g1) \<longrightarrow> r1 i = r2 i)
        \<Longrightarrow> generateLoop cfg r2 g1 = generateLoop cfg r1 g1" by blast+
    have "generateLoop cfg r2 g = generateLoop cfg r1 g1"
      if agree: "\<forall>i. gen_draws g \<le> i \<and> i < snd (generateLoop cfg r1 g1) \<longrightarrow> r1 i = r2 i"
    proof -
      from agree mono1 Continue have "generateStep cfg r2 g = generateStep cfg r1 g"
        by (intro generateStep_frame) simp
      with Continue have "generateLoop cfg r2 g = generateLoop cfg r2 g1"
        by (simp add: generateLoop.simps [of cfg r2 g])
      moreover from agree d have "generateLoop cfg r2 g1 = generateLoop cfg r1 g1"
        by (intro ih) simp
      ultimately show ?thesis by simp
    qed
    with d mono1 loop show ?thesis by simp
  qed
qed

lemma tiny_generate: "generatePath tinyConfig zeroDraws 0 = (Inr [5, 9, 13], 4)"
  by (simp add: generatePath_def generateLoop.simps generateStep_def maxAttempts_def
      tiny_attempt) (simp add: tinyConfig_def)

section \<open>The neighbour scan and the selection of game.js\<close>

lemma wouldCreateLoop_gamejs_eq:
  "wouldCreateLoop_gamejs cfg n pth = wouldCreateLoop cfg n cx cy pth"
  by (simp add: wouldCreateLoop_gamejs_def wouldCreateLoop_def)

lemma getUnvisitedNeighbors_eq:
  "getUnvisitedNeighbors cfg c vis pth = getValidNeighbors cfg c vis pth"
  unfolding getUnvisitedNeighbors_def getValidNeighbors_def
    wouldCreateLoop_gamejs_def wouldCreateLoop_def
  by (rule refl)

lemma ceil_half_positive: "0 < n \<Longrightarrow> 0 < nat \<lceil>real n / 2\<rceil>"
  by (simp add: zero_less_nat_eq)

lemma chooseNextTile_gamejs_member:
  assumes "neighbors \<noteq> []"
  shows "\<exists>n \<in> set neighbors. chooseNextTile_gamejs cfg rnd k neighbors vis pth = (Inr n, Suc k)"
proof -
  let ?scored = "map (\<lambda>n. (n, int (length (getUnvisitedNeighbors cfg n (insert n vis) pth))))
                     neighbors"
  let ?sorted = "sort_key (\<lambda>s. - snd s) ?scored"
  let ?top = "take (nat \<lceil>real (length ?sorted) / 2\<rceil>) ?sorted"
  from assms have len: "0 < length ?sorted" by simp
  then have "0 < nat \<lceil>real (length ?sorted) / 2\<rceil>" by (rule ceil_half_positive)
  with len have "length ?top \<noteq> 0" by simp
  then have "?top \<noteq> []" by (simp only: length_0_conv not_False_eq_True)
  from arrayGet_random [OF this, of "rnd k"] obtain s where
    s: "s \<in> set ?top" "arrayGet ?top (floorRandomTimes (rnd k) (int (length ?top))) = Some s"
    by blast
  from s(1) have "s \<in> set ?sorted" by (rule in_set_takeD)
  then have "fst s \<in> set neighbors" by auto
  moreover from s(2) have "chooseNextTile_gamejs cfg rnd k neighbors vis pth = (Inr (fst s), Suc k)"
    by (simp add: chooseNextTile_gamejs_def Let_def)
  ultimately show ?thesis by blast
qed

lemma attemptStep_gamejs_cases:
  assumes "attemptStep_gamejs cfg rnd s = Continue s'" "gj_path s \<noteq> []"
  obtains (pop) "getUnvisitedNeighbors cfg (last (gj_path s)) (gj_visited s) (gj_path s) = []"
      "1 < length (gj_path s)" "s' = s\<lparr>gj_path := butlast (gj_path s)\<rparr>"
    | (push) n where
      "n \<in> set (getUnvisitedNeighbors cfg (last (gj_path s)) (gj_visited s) (gj_path s))"
      "s' = s\<lparr>gj_path := gj_path s @ [n], gj_visited := insert n (gj_visited s),
              gj_draws := Suc (gj_draws s)\<rparr>"
proof -
  let ?p = "gj_path s"
  let ?nb = "getUnvisitedNeighbors cfg (last ?p) (gj_visited s) ?p"
  from assms(2) have cur: "arrayGet ?p (int (length ?p) - 1) = Some (last ?p)"
    by (simp add: arrayGet_def last_conv_nth nat_diff_distrib')
  show thesis
  proof (cases "?nb = []")
    case True
    with assms(1) cur show thesis
      by (intro pop) (auto simp: attemptStep_gamejs_def Let_def split: if_splits)
  next
    case False
    from chooseNextTile_gamejs_member [OF False, of cfg rnd "gj_draws s" "gj_visited s" ?p]
    obtain n where n: "n \<in> set ?nb"
      and c: "chooseNextTile_gamejs cfg rnd (gj_draws s) ?nb (gj_visited s) ?p = (Inr n, Suc (gj_draws s))"
      by blast
    with assms(1) cur False have "s' = s\<lparr>gj_path := ?p @ [n],
        gj_visited := insert n (gj_visited s), gj_draws := Suc (gj_draws s)\<rparr>"
      by (auto simp: attemptStep_gamejs_def Let_def split: if_splits)
    with n show thesis by (rule push)
  qed
qed

lemmas gamejs_eval = attemptInit_gamejs_def attemptStep_gamejs_def chooseNextTile_gamejs_def
  getUnvisitedNeighbors_def wouldCreateLoop_gamejs_def directions_def
  arrayGet_def floorRandomTimes_fraction smod_nonneg Let_def

lemma gamejs_corner_run:
  "loopStates (attemptStep_gamejs desktopConfig cornerDraws) 4
     (attemptInit_gamejs desktopConfig cornerDraws 0)
   = Some \<lparr>gj_path = [14, 13, 1], gj_visited = {0, 1, 13, 14}, gj_draws = 5\<rparr>"
  by (simp add: numeral_eq_Suc desktopConfig_def cornerDraws_def gamejs_eval insert_commute)

lemma tiny_states:
  "loopStates (attemptStep tinyConfig zeroDraws) 2 (attemptInit tinyConfig zeroDraws 0)
   = Some \<lparr>st_path = [5, 9, 13], st_visited = {5, 9, 13}, st_backtrackCount = 0, st_draws = 4\<rparr>"
  by (simp add: numeral_eq_Suc tinyConfig_def zeroDraws_def attemptInit_def attemptStep_def
      chooseNextTile_def scoreNeighbors_def getValidNeighbors_def wouldCreateLoop_def
      directions_def arrayGet_def arrayRead_def floorRandomTimes_fraction smod_nonneg
      maxBacktracks_def Let_def insert_commute)

lemma tiny_attempt_gamejs:
  "attemptPathGeneration_gamejs tinyConfig zeroDraws 0 = (Path [0, 4, 5], 4)"
  by (simp add: tinyConfig_def zeroDraws_def attemptPathGeneration_gamejs_def
      attemptLoop_gamejs.simps gamejs_eval)

lemma tiny_generate_gamejs: "generatePath_gamejs tinyConfig zeroDraws 0 = (Inr [0, 4, 5], 4)"
  by (simp add: generatePath_gamejs_def generateLoop_gamejs.simps generateStep_gamejs_def
      maxAttempts_gamejs_def tiny_attempt_gamejs) (simp add: tinyConfig_def)

lemma visitedCovers_init: "visitedCovers (attemptInit_gamejs cfg rnd k)"
  by (simp add: visitedCovers_def attemptInit_gamejs_def Let_def)

lemma visitedCovers_step:
  assumes "visitedCovers g" "attemptStep_gamejs cfg rnd g = Continue g'"
  shows "visitedCovers g'"
proof -
  from assms(1) have ne: "gj_path g \<noteq> []" and sub: "set (gj_path g) \<subseteq> gj_visited g"
    by (simp_all add: visitedCovers_def)
  from assms(2) ne show ?thesis
  proof (cases rule: attemptStep_gamejs_cases)
    case pop
    from pop(2) have "butlast (gj_path g) \<noteq> []"
      by (cases "gj_path g" rule: rev_cases) auto
    with pop(3) sub show ?thesis by (auto simp: visitedCovers_def dest: in_set_butlastD)
  next
    case (push n)
    with sub show ?thesis by (auto simp: visitedCovers_def)
  qed
qed

lemma floorRandomTimes_interval:
  assumes "0 < n"
  shows "floorRandomTimes u n = i \<longleftrightarrow>
     real_of_int i / real_of_int n \<le> drawValue u \<and> drawValue u < (real_of_int i + 1) / real_of_int n"
  using assms
proof (transfer, goal_cases)
  case (1 n u i)
  then have n: "0 < real_of_int n" by simp
  have "\<lfloor>u * real_of_int n\<rfloor> = i \<longleftrightarrow>
      real_of_int i \<le> u * real_of_int n \<and> u * real_of_int n < real_of_int i + 1"
    by (rule floor_eq_iff)
  also have "\<dots> \<longleftrightarrow> real_of_int i / real_of_int n \<le> u \<and> u < (real_of_int i + 1) / real_of_int n"
    using n by (simp add: pos_divide_le_eq pos_less_divide_eq)
  finally show ?case .
qed

lemma attemptInit_gamejs_start:
  assumes "0 < GRID_WIDTH cfg" "0 < GRID_HEIGHT cfg"
  shows "\<exists>x y. gj_path (attemptInit_gamejs cfg rnd k) = [y * GRID_WIDTH cfg + x]
           \<and> gj_visited (attemptInit_gamejs cfg rnd k) = {y * GRID_WIDTH cfg + x}
           \<and> 0 \<le> x \<and> x \<le> GRID_WIDTH cfg - 1 \<and> 0 \<le> y \<and> y \<le> GRID_HEIGHT cfg - 1"
proof -
  let ?x = "floorRandomTimes (rnd k) (GRID_WIDTH cfg)"
  let ?y = "floorRandomTimes (rnd (Suc k)) (GRID_HEIGHT cfg)"
  have "gj_path (attemptInit_gamejs cfg rnd k) = [?y * GRID_WIDTH cfg + ?x]"
    "gj_visited (attemptInit_gamejs cfg rnd k) = {?y * GRID_WIDTH cfg + ?x}"
    by (simp_all add: attemptInit_gamejs_def Let_def)
  moreover from floorRandomTimes_bounds [OF assms(1), of "rnd k"]
  have "0 \<le> ?x \<and> ?x \<le> GRID_WIDTH cfg - 1" by simp
  moreover from floorRandomTimes_bounds [OF assms(2), of "rnd (Suc k)"]
  have "0 \<le> ?y \<and> ?y \<le> GRID_HEIGHT cfg - 1" by simp
  ultimately show ?thesis by blast
qed

section \<open>The scored selection of the responsive script\<close>

lemma sort_key_ranked:
  fixes g :: "int \<Rightarrow> int"
  assumes "xs \<noteq> []" "0 < K" "K \<le> length xs"
  shows "\<exists>s \<in> set xs.
     arrayGet (take K (sort_key (\<lambda>s. - snd s) (map (\<lambda>n. (n, g n)) xs)))
        (floorRandomTimes u (int (length (take K (sort_key (\<lambda>s. - snd s) (map (\<lambda>n. (n, g n)) xs))))))
       = Some (s, g s)
     \<and> rankedSelection g xs (floorRandomTimes u (int K)) s"
proof -
  let ?pairs = "map (\<lambda>n. (n, g n)) xs"
  let ?sorted = "sort_key (\<lambda>s. - snd s) ?pairs"
  let ?ranked = "map fst ?sorted"
  let ?i = "floorRandomTimes u (int K)"
  have pair: "p = (fst p, g (fst p))" if "p \<in> set ?sorted" for p
    using that by auto
  have lenK: "length (take K ?sorted) = K" using assms(3) by simp
  from assms(2) have "0 < int K" by simp
  from floorRandomTimes_bounds [OF this, of u] have i0: "0 \<le> ?i" "?i < int K" by simp_all
  then have i: "0 \<le> ?i" "nat ?i < K" by linarith+
  with assms(3) have inK: "nat ?i < length ?sorted" by simp
  let ?p = "?sorted ! nat ?i"
  from inK have mem: "?p \<in> set ?sorted" by (rule nth_mem)
  then have fstmem: "fst ?p \<in> set xs" by auto
  have get: "arrayGet (take K ?sorted) (floorRandomTimes u (int (length (take K ?sorted)))) = Some ?p"
    unfolding lenK using i i0 assms(3) by (simp add: arrayGet_def min_absorb2)
  have m: "mset ?ranked = mset xs"
  proof -
    have "mset ?ranked = image_mset fst (mset ?sorted)" by simp
    also have "\<dots> = image_mset fst (mset ?pairs)" by (simp only: mset_sort)
    also have "\<dots> = mset xs" by (simp add: image_mset.compositionality comp_def)
    finally show ?thesis .
  qed
  have "sorted (map (\<lambda>s. - snd s) ?sorted)" by (rule sorted_sort_key)
  then have "sorted_wrt (\<lambda>a b. - snd a \<le> - snd b) ?sorted" by (simp only: sorted_map)
  then have "sorted_wrt (\<lambda>a b. g (fst b) \<le> g (fst a)) ?sorted"
  proof (rule sorted_wrt_mono_rel [rotated])
    fix a b assume "a \<in> set ?sorted" "b \<in> set ?sorted" "- snd a \<le> - snd b"
    with pair [of a] pair [of b] show "g (fst b) \<le> g (fst a)" by (metis neg_le_iff_le snd_conv)
  qed
  then have srt: "sorted_wrt (\<lambda>a b. g b \<le> g a) ?ranked" by (simp add: sorted_wrt_map)
  have "arrayGet ?ranked ?i = Some (fst ?p)" using i inK by (simp add: arrayGet_def)
  with m srt have "rankedSelection g xs ?i (fst ?p)" unfolding rankedSelection_def by blast
  moreover from pair [OF mem] get have "arrayGet (take K ?sorted)
      (floorRandomTimes u (int (length (take K ?sorted)))) = Some (fst ?p, g (fst ?p))" by simp
  ultimately show ?thesis using fstmem by blast
qed

lemma scoreNeighbors_pairs:
  "scoreNeighbors cfg neighbors vis pth = map (\<lambda>n. (n, lookaheadScore cfg vis pth n)) neighbors"
  by (simp add: scoreNeighbors_def lookaheadScore_def Let_def)

lemma viable_survivors:
  "filter (\<lambda>s. snd s > 0 \<or> PATH_LENGTH cfg - int (length pth) \<le> 2)
      (scoreNeighbors cfg neighbors vis pth)
   = map (\<lambda>n. (n, lookaheadScore cfg vis pth n)) (survivors cfg neighbors vis pth)"
proof -
  have "0 \<le> lookaheadScore cfg vis pth n" for n by (simp add: lookaheadScore_def)
  then have "(0 < lookaheadScore cfg vis pth n) = (lookaheadScore cfg vis pth n \<noteq> 0)" for n
    by (simp add: less_le)
  then show ?thesis
    by (simp add: scoreNeighbors_pairs survivors_def nearCompletion_def filter_map comp_def)
qed

lemma fallback_run:
  "loopStates (attemptStep desktopConfig fallbackDraws) 5 (attemptInit desktopConfig fallbackDraws 0)
   = Some fallbackState"
  by (simp add: numeral_eq_Suc desktopConfig_def fallbackDraws_def fallbackState_def
      attemptInit_def attemptStep_def
      chooseNextTile_def scoreNeighbors_def getValidNeighbors_def wouldCreateLoop_def
      directions_def arrayGet_def arrayRead_def floorRandomTimes_fraction smod_nonneg
      maxBacktracks_def Let_def insert_commute)

lemma fallback_neighbors:
  "getValidNeighbors desktopConfig 1 (st_visited fallbackState) (st_path fallbackState) = [0, 2]"
  by (simp add: desktopConfig_def fallbackState_def getValidNeighbors_def wouldCreateLoop_def
      directions_def smod_nonneg Let_def)

lemma fallback_scores:
  "lookaheadScore desktopConfig (st_visited fallbackState) (st_path fallbackState) 0 = 0"
  "lookaheadScore desktopConfig (st_visited fallbackState) (st_path fallbackState) 2 = 0"
  "\<not> nearCompletion desktopConfig (st_path fallbackState)"
  by (simp_all add: lookaheadScore_def nearCompletion_def desktopConfig_def fallbackState_def
      getValidNeighbors_def wouldCreateLoop_def directions_def smod_nonneg Let_def)

lemma fallback_choice:
  "chooseNextTile desktopConfig fallbackDraws 7 [0, 2]
     (st_visited fallbackState) (st_path fallbackState) = (Inr 2, 8)"
  by (simp add: desktopConfig_def fallbackDraws_def fallbackState_def
      chooseNextTile_def scoreNeighbors_def getValidNeighbors_def wouldCreateLoop_def
      directions_def arrayGet_def arrayRead_def floorRandomTimes_fraction smod_nonneg Let_def)

section \<open>The search of game.js\<close>

lemma threadInvariant_gamejs_init: "threadInvariant_gamejs cfg (attemptInit_gamejs cfg rnd k)"
  by (simp add: threadInvariant_gamejs_def visitedCovers_def attemptInit_gamejs_def Let_def
      consecutiveAdjacent_single noTouching_single)

lemma threadInvariant_gamejs_step:
  assumes "attemptStep_gamejs cfg rnd g = Continue g'" "threadInvariant_gamejs cfg g"
  shows "threadInvariant_gamejs cfg g'"
proof -
  let ?p = "gj_path g"
  from assms(2) have vc: "visitedCovers g" and dist: "distinct ?p"
    and adj: "consecutiveAdjacent cfg ?p" and nt: "noTouching cfg ?p"
    by (simp_all add: threadInvariant_gamejs_def)
  from vc have ne: "?p \<noteq> []" and sub: "set ?p \<subseteq> gj_visited g"
    by (simp_all add: visitedCovers_def)
  from visitedCovers_step [OF vc assms(1)] have vc': "visitedCovers g'" .
  from assms(1) ne show ?thesis
  proof (cases rule: attemptStep_gamejs_cases)
    case pop
    with vc' dist adj nt show ?thesis
      by (simp add: threadInvariant_gamejs_def distinct_butlast
          consecutiveAdjacent_butlast noTouching_butlast)
  next
    case (push n)
    from push(1) have mem: "n \<in> set (getValidNeighbors cfg (last ?p) (gj_visited g) ?p)"
      by (simp add: getUnvisitedNeighbors_eq)
    note snd = getValidNeighbors_sound [OF mem]
    from snd(3) sub have fresh: "n \<notin> set ?p" by blast
    have adj': "consecutiveAdjacent cfg (?p @ [n])"
      using adj ne snd(4) by (rule consecutiveAdjacent_snoc)
    have far: "\<forall>c \<in> set (butlast ?p). manhattan cfg n c \<noteq> 1"
    proof (cases "3 \<le> length ?p")
      case True
      then show ?thesis by (rule snd(5))
    next
      case False
      show ?thesis
      proof
        fix c assume c: "c \<in> set (butlast ?p)"
        then have "butlast ?p \<noteq> []" by (cases "butlast ?p") auto
        then have "length (butlast ?p) \<noteq> 0" by (simp only: length_0_conv not_False_eq_True)
        moreover have "length (butlast ?p) = length ?p - 1" by (rule length_butlast)
        ultimately have "2 \<le> length ?p" by linarith
        with False have len: "length ?p = 2" by linarith
        then obtain a b where p: "?p = [a, b]"
          by (cases ?p; cases "tl ?p") auto
        with c have "c = a" by simp
        from adj p have "manhattan cfg a b = 1" by (simp add: consecutiveAdjacent_def)
        moreover from snd(4) p have "manhattan cfg b n = 1" by simp
        ultimately have "manhattan cfg a n \<noteq> 1" by (rule manhattan_parity)
        with \<open>c = a\<close> show "manhattan cfg n c \<noteq> 1" by (simp add: manhattan_sym)
      qed
    qed
    have "noTouching cfg (?p @ [n])" using nt far by (rule noTouching_snoc)
    with adj' vc' dist fresh push(2) show ?thesis by (simp add: threadInvariant_gamejs_def)
  qed
qed

lemma attemptLoop_gamejs_returns:
  "\<exists>n g'. loopStates (attemptStep_gamejs cfg rnd) n g = Some g'
          \<and> attemptStep_gamejs cfg rnd g' = Return (attemptLoop_gamejs cfg rnd g)"
proof (induction cfg rnd g rule: attemptLoop_gamejs.induct)
  case (1 cfg rnd g)
  show ?case
  proof (cases "attemptStep_gamejs cfg rnd g")
    case (Continue g1)
    from 1 [OF Continue] obtain n g' where
      "loopStates (attemptStep_gamejs cfg rnd) n g1 = Some g'"
      "attemptStep_gamejs cfg rnd g' = Return (attemptLoop_gamejs cfg rnd g1)" by blast
    moreover have "attemptLoop_gamejs cfg rnd g = attemptLoop_gamejs cfg rnd g1"
      using Continue by (simp add: attemptLoop_gamejs.simps [of cfg rnd g])
    ultimately have "loopStates (attemptStep_gamejs cfg rnd) (Suc n) g = Some g'
        \<and> attemptStep_gamejs cfg rnd g' = Return (attemptLoop_gamejs cfg rnd g)"
      using Continue by simp
    then show ?thesis by blast
  next
    case (Return r)
    then have "attemptLoop_gamejs cfg rnd g = r"
      by (simp add: attemptLoop_gamejs.simps [of cfg rnd g])
    with Return have "loopStates (attemptStep_gamejs cfg rnd) 0 g = Some g
        \<and> attemptStep_gamejs cfg rnd g = Return (attemptLoop_gamejs cfg rnd g)" by simp
    then show ?thesis by blast
  qed
qed

lemma attemptStep_gamejs_Return:
  assumes "attemptStep_gamejs cfg rnd g = Return (out, k')" "gj_path g \<noteq> []"
  shows "out = Null \<or> (out = Path (gj_path g) \<and> PATH_LENGTH cfg \<le> int (length (gj_path g)))"
proof -
  let ?p = "gj_path g"
  let ?nb = "getUnvisitedNeighbors cfg (last ?p) (gj_visited g) ?p"
  from assms(2) have cur: "arrayGet ?p (int (length ?p) - 1) = Some (last ?p)"
    by (simp add: arrayGet_def last_conv_nth nat_diff_distrib')
  show ?thesis
  proof (cases "?nb = []")
    case True
    with assms(1) cur show ?thesis
      by (auto simp: attemptStep_gamejs_def Let_def split: if_splits)
  next
    case False
    from chooseNextTile_gamejs_member [OF False, of cfg rnd "gj_draws g" "gj_visited g" ?p]
    obtain n where
      "chooseNextTile_gamejs cfg rnd (gj_draws g) ?nb (gj_visited g) ?p = (Inr n, Suc (gj_draws g))"
      by blast
    with assms(1) cur False show ?thesis
      by (auto simp: attemptStep_gamejs_def Let_def split: if_splits)
  qed
qed

text \<open>The path never grows beyond the target length, when that is at least 1.\<close>

lemma gamejs_length_step:
  assumes "length (gj_path a) \<le> nat (PATH_LENGTH cfg)" "attemptStep_gamejs cfg rnd a = Continue b"
  shows "length (gj_path b) \<le> nat (PATH_LENGTH cfg)"
  using assms
  by (auto simp: attemptStep_gamejs_def Let_def
      split: if_splits option.splits prod.splits sum.splits)

lemma attemptPathGeneration_gamejs_result:
  assumes "1 \<le> PATH_LENGTH cfg"
  shows "fst (attemptPathGeneration_gamejs cfg rnd k) = Null
     \<or> (\<exists>p. fst (attemptPathGeneration_gamejs cfg rnd k) = Path p
            \<and> int (length p) = PATH_LENGTH cfg
            \<and> distinct p \<and> consecutiveAdjacent cfg p \<and> noTouching cfg p)"
proof -
  let ?g0 = "attemptInit_gamejs cfg rnd k"
  let ?P = "\<lambda>g. threadInvariant_gamejs cfg g \<and> length (gj_path g) \<le> nat (PATH_LENGTH cfg)"
  from attemptLoop_gamejs_returns [of cfg rnd ?g0] obtain n g' where
    st: "loopStates (attemptStep_gamejs cfg rnd) n ?g0 = Some g'"
    and ret: "attemptStep_gamejs cfg rnd g' = Return (attemptLoop_gamejs cfg rnd ?g0)" by blast
  have "?P ?g0" using assms threadInvariant_gamejs_init [of cfg rnd k]
    by (simp add: attemptInit_gamejs_def Let_def)
  with st have inv: "?P g'"
  proof (rule loopStates_invariant)
    fix a b assume "?P a" "attemptStep_gamejs cfg rnd a = Continue b"
    then show "?P b" using threadInvariant_gamejs_step gamejs_length_step by blast
  qed
  then have ne: "gj_path g' \<noteq> []"
    by (simp add: threadInvariant_gamejs_def visitedCovers_def)
  obtain out k' where r: "attemptLoop_gamejs cfg rnd ?g0 = (out, k')"
    by (cases "attemptLoop_gamejs cfg rnd ?g0")
  from attemptStep_gamejs_Return [OF ret [unfolded r] ne]
  have "out = Null \<or> (out = Path (gj_path g') \<and> PATH_LENGTH cfg \<le> int (length (gj_path g')))" .
  moreover from inv have "length (gj_path g') \<le> nat (PATH_LENGTH cfg)" by simp
  with assms have "int (length (gj_path g')) \<le> PATH_LENGTH cfg" by linarith
  ultimately show ?thesis using inv r
    by (auto simp: attemptPathGeneration_gamejs_def threadInvariant_gamejs_def)
qed

text \<open>
  The loop of an attempt of \<open>game.js\<close> returns within \<open>2 * width * height + 1\<close> runs of
  its body: twice the number of unvisited tiles plus the length of the path decreases
  by one in every run.
\<close>

lemma loopStates_countdown:
  assumes "loopStates step n s = Some s'" "P s"
    and "\<And>a b. P a \<Longrightarrow> step a = Continue b \<Longrightarrow> P b \<and> Suc (f b) = f a"
  shows "P s' \<and> f s' + n = f s"
  using assms(1,2)
proof (induction n arbitrary: s)
  case 0
  then show ?case by simp
next
  case (Suc n)
  from Suc.prems(1) obtain s1 where s1: "step s = Continue s1" "loopStates step n s1 = Some s'"
    by (auto split: loop_step.splits)
  from assms(3) [OF Suc.prems(2) s1(1)] have "P s1" "Suc (f s1) = f s" by simp_all
  with Suc.IH [OF s1(2)] show ?case by simp
qed

lemma attemptStep_gamejs_countdown:
  assumes "gj_path a \<noteq> []" "attemptStep_gamejs cfg rnd a = Continue b"
  shows "gj_path b \<noteq> []
     \<and> Suc (2 * unvisitedCount cfg b + length (gj_path b))
         = 2 * unvisitedCount cfg a + length (gj_path a)"
  using assms(2,1)
proof (cases rule: attemptStep_gamejs_cases)
  case pop
  from pop(2) have "butlast (gj_path a) \<noteq> []"
    by (cases "gj_path a" rule: rev_cases) auto
  with pop show ?thesis by (simp add: unvisitedCount_def)
next
  case (push n)
  let ?U = "{0 ..< GRID_WIDTH cfg * GRID_HEIGHT cfg} - gj_visited a"
  from push(1) have "n \<in> set (getValidNeighbors cfg (last (gj_path a)) (gj_visited a) (gj_path a))"
    by (simp add: getUnvisitedNeighbors_eq)
  from getValidNeighbors_sound(1-3) [OF this] have "n \<in> ?U" by simp
  moreover have "finite ?U" by simp
  ultimately have "Suc (card (?U - {n})) = card ?U" by (simp only: card_Suc_Diff1)
  moreover have "{0 ..< GRID_WIDTH cfg * GRID_HEIGHT cfg} - insert n (gj_visited a) = ?U - {n}"
    by auto
  ultimately have "Suc (unvisitedCount cfg b) = unvisitedCount cfg a"
    using push(2) by (simp add: unvisitedCount_def)
  with push(2) show ?thesis by simp
qed

lemma attemptPathGeneration_gamejs_terminates:
  "\<exists>n g'. loopStates (attemptStep_gamejs cfg rnd) n (attemptInit_gamejs cfg rnd k) = Some g'
        \<and> attemptStep_gamejs cfg rnd g' = Return (attemptPathGeneration_gamejs cfg rnd k)
        \<and> n \<le> 2 * nat (GRID_WIDTH cfg * GRID_HEIGHT cfg) + 1"
proof -
  let ?g0 = "attemptInit_gamejs cfg rnd k"
  let ?f = "\<lambda>g. 2 * unvisitedCount cfg g + length (gj_path g)"
  from attemptLoop_gamejs_returns [of cfg rnd ?g0] obtain n g' where
    st: "loopStates (attemptStep_gamejs cfg rnd) n ?g0 = Some g'"
    and ret: "attemptStep_gamejs cfg rnd g' = Return (attemptLoop_gamejs cfg rnd ?g0)" by blast
  have "gj_path ?g0 \<noteq> []" by (simp add: attemptInit_gamejs_def Let_def)
  with st have "gj_path g' \<noteq> [] \<and> ?f g' + n = ?f ?g0"
    by (rule loopStates_countdown) (rule attemptStep_gamejs_countdown)
  then have "n \<le> ?f ?g0" by linarith
  moreover have "unvisitedCount cfg ?g0 \<le> card {0 ..< GRID_WIDTH cfg * GRID_HEIGHT cfg}"
    unfolding unvisitedCount_def by (intro card_mono) auto
  moreover have "length (gj_path ?g0) = 1" by (simp add: attemptInit_gamejs_def Let_def)
  ultimately have "n \<le> 2 * nat (GRID_WIDTH cfg * GRID_HEIGHT cfg) + 1" by simp
  with st ret show ?thesis unfolding attemptPathGeneration_gamejs_def by blast
qed

text \<open>The result of \<open>generatePath\<close> of \<open>game.js\<close> is a function of the draws it reads.\<close>

lemma chooseNextTile_gamejs_frame:
  assumes "r1 k = r2 k"
  shows "chooseNextTile_gamejs cfg r2 k nb vis p = chooseNextTile_gamejs cfg r1 k nb vis p"
  using assms by (simp add: chooseNextTile_gamejs_def)

lemma attemptStep_gamejs_draws: "gj_draws g \<le> stepDraws_gamejs (attemptStep_gamejs cfg rnd g)"
  by (auto simp: attemptStep_gamejs_def chooseNextTile_gamejs_def Let_def
      split: option.splits prod.splits sum.splits)

lemma attemptStep_gamejs_frame:
  assumes "\<forall>i. gj_draws g \<le> i \<and> i < stepDraws_gamejs (attemptStep_gamejs cfg r1 g) \<longrightarrow> r1 i = r2 i"
  shows "attemptStep_gamejs cfg r2 g = attemptStep_gamejs cfg r1 g"
proof -
  let ?p = "gj_path g"
  show ?thesis
  proof (cases "int (length ?p) < PATH_LENGTH cfg")
    case False
    then show ?thesis by (simp add: attemptStep_gamejs_def)
  next
    case run: True
    show ?thesis
    proof (cases "arrayGet ?p (int (length ?p) - 1)")
      case None
      with run show ?thesis by (simp add: attemptStep_gamejs_def)
    next
      case (Some current)
      let ?nb = "getUnvisitedNeighbors cfg current (gj_visited g) ?p"
      show ?thesis
      proof (cases "length ?nb = 0")
        case True
        with run Some show ?thesis by (simp add: attemptStep_gamejs_def Let_def)
      next
        case False
        let ?c = "chooseNextTile_gamejs cfg r1 (gj_draws g) ?nb (gj_visited g) ?p"
        have "snd ?c = Suc (gj_draws g)" by (simp add: chooseNextTile_gamejs_def Let_def)
        moreover from run Some False have "stepDraws_gamejs (attemptStep_gamejs cfg r1 g) = snd ?c"
          by (cases ?c) (auto simp: attemptStep_gamejs_def Let_def split: sum.splits)
        ultimately have "r1 (gj_draws g) = r2 (gj_draws g)" using assms by simp
        then have "chooseNextTile_gamejs cfg r2 (gj_draws g) ?nb (gj_visited g) ?p = ?c"
          by (rule chooseNextTile_gamejs_frame)
        with run Some False show ?thesis by (simp add: attemptStep_gamejs_def Let_def)
      qed
    qed
  qed
qed

lemma attemptLoop_gamejs_frame:
  "gj_draws g \<le> snd (attemptLoop_gamejs cfg r1 g)
   \<and> ((\<forall>i. gj_draws g \<le> i \<and> i < snd (attemptLoop_gamejs cfg r1 g) \<longrightarrow> r1 i = r2 i)
        \<longrightarrow> attemptLoop_gamejs cfg r2 g = attemptLoop_gamejs cfg r1 g)"
proof (induction cfg r1 g rule: attemptLoop_gamejs.induct)
  case (1 cfg r1 g)
  show ?case
  proof (cases "attemptStep_gamejs cfg r1 g")
    case (Return r)
    then have loop: "attemptLoop_gamejs cfg r1 g = r"
      by (simp add: attemptLoop_gamejs.simps [of cfg r1 g])
    from attemptStep_gamejs_draws [of g cfg r1] Return have mono: "gj_draws g \<le> snd r" by simp
    have "attemptLoop_gamejs cfg r2 g = r"
      if "\<forall>i. gj_draws g \<le> i \<and> i < snd r \<longrightarrow> r1 i = r2 i"
    proof -
      from that Return have "attemptStep_gamejs cfg r2 g = attemptStep_gamejs cfg r1 g"
        by (intro attemptStep_gamejs_frame) simp
      with Return show ?thesis by (simp add: attemptLoop_gamejs.simps [of cfg r2 g])
    qed
    with mono loop show ?thesis by simp
  next
    case (Continue g1)
    then have loop: "attemptLoop_gamejs cfg r1 g = attemptLoop_gamejs cfg r1 g1"
      by (simp add: attemptLoop_gamejs.simps [of cfg r1 g])
    from attemptStep_gamejs_draws [of g cfg r1] Continue have d: "gj_draws g \<le> gj_draws g1"
      by simp
    from 1 [OF Continue] have mono1: "gj_draws g1 \<le> snd (attemptLoop_gamejs cfg r1 g1)"
      and ih: "(\<forall>i. gj_draws g1 \<le> i \<and> i < snd (attemptLoop_gamejs cfg r1 g1) \<longrightarrow> r1 i = r2 i)
        \<Longrightarrow> attemptLoop_gamejs cfg r2 g1 = attemptLoop_gamejs cfg r1 g1" by blast+
    have "attemptLoop_gamejs cfg r2 g = attemptLoop_gamejs cfg r1 g1"
      if agree: "\<forall>i. gj_draws g \<le> i \<and> i < snd (attemptLoop_gamejs cfg r1 g1) \<longrightarrow> r1 i = r2 i"
    proof -
      from agree mono1 Continue have "attemptStep_gamejs cfg r2 g = attemptStep_gamejs cfg r1 g"
        by (intro attemptStep_gamejs_frame) simp
      with Continue have "attemptLoop_gamejs cfg r2 g = attemptLoop_gamejs cfg r2 g1"
        by (simp add: attemptLoop_gamejs.simps [of cfg r2 g])
      moreover from agree d have "attemptLoop_gamejs cfg r2 g1 = attemptLoop_gamejs cfg r1 g1"
        by (intro ih) simp
      ultimately show ?thesis by simp
    qed
    with d mono1 loop show ?thesis by simp
  qed
qed

lemma attemptPathGeneration_gamejs_frame:
  "Suc (Suc k) \<le> snd (attemptPathGeneration_gamejs cfg r1 k)
   \<and> ((\<forall>i. k \<le> i \<and> i < snd (attemptPathGeneration_gamejs cfg r1 k) \<longrightarrow> r1 i = r2 i)
        \<longrightarrow> attemptPathGeneration_gamejs cfg r2 k = attemptPathGeneration_gamejs cfg r1 k)"
proof -
  let ?g = "attemptInit_gamejs cfg r1 k"
  have d: "gj_draws ?g = Suc (Suc k)" by (simp add: attemptInit_gamejs_def Let_def)
  from attemptLoop_gamejs_frame [of ?g cfg r1 r2]
  have mono: "Suc (Suc k) \<le> snd (attemptLoop_gamejs cfg r1 ?g)"
    and fr: "(\<forall>i. Suc (Suc k) \<le> i \<and> i < snd (attemptLoop_gamejs cfg r1 ?g) \<longrightarrow> r1 i = r2 i)
        \<Longrightarrow> attemptLoop_gamejs cfg r2 ?g = attemptLoop_gamejs cfg r1 ?g"
    unfolding d by blast+
  have "attemptLoop_gamejs cfg r2 (attemptInit_gamejs cfg r2 k) = attemptLoop_gamejs cfg r1 ?g"
    if agree: "\<forall>i. k \<le> i \<and> i < snd (attemptLoop_gamejs cfg r1 ?g) \<longrightarrow> r1 i = r2 i"
  proof -
    from agree mono have "r1 k = r2 k" "r1 (Suc k) = r2 (Suc k)" by simp_all
    then have "attemptInit_gamejs cfg r2 k = ?g" by (simp add: attemptInit_gamejs_def)
    moreover from agree have "attemptLoop_gamejs cfg r2 ?g = attemptLoop_gamejs cfg r1 ?g"
      by (intro fr) simp
    ultimately show ?thesis by simp
  qed
  with mono show ?thesis by (simp add: attemptPathGeneration_gamejs_def)
qed

lemma generateStep_gamejs_draws: "gen_draws g \<le> generateStepDraws (generateStep_gamejs cfg rnd g)"
proof -
  from attemptPathGeneration_gamejs_frame [of "gen_draws g" cfg rnd rnd]
  have "gen_draws g \<le> snd (attemptPathGeneration_gamejs cfg rnd (gen_draws g))" by simp
  then show ?thesis
    by (cases "attemptPathGeneration_gamejs cfg rnd (gen_draws g)")
       (auto simp: generateStep_gamejs_def split: attempt_outcome.splits)
qed

lemma generateStep_gamejs_frame:
  assumes "\<forall>i. gen_draws g \<le> i \<and> i < generateStepDraws (generateStep_gamejs cfg r1 g)
      \<longrightarrow> r1 i = r2 i"
  shows "generateStep_gamejs cfg r2 g = generateStep_gamejs cfg r1 g"
proof (cases "gen_attempts g < maxAttempts_gamejs")
  case False
  then show ?thesis by (simp add: generateStep_gamejs_def)
next
  case True
  let ?a = "attemptPathGeneration_gamejs cfg r1 (gen_draws g)"
  from True have "generateStepDraws (generateStep_gamejs cfg r1 g) = snd ?a"
    by (cases ?a) (auto simp: generateStep_gamejs_def split: attempt_outcome.splits)
  with assms attemptPathGeneration_gamejs_frame [of "gen_draws g" cfg r1 r2]
  have "attemptPathGeneration_gamejs cfg r2 (gen_draws g) = ?a" by simp
  then show ?thesis by (simp add: generateStep_gamejs_def)
qed

lemma generateLoop_gamejs_frame:
  "gen_draws g \<le> snd (generateLoop_gamejs cfg r1 g)
   \<and> ((\<forall>i. gen_draws g \<le> i \<and> i < snd (generateLoop_gamejs cfg r1 g) \<longrightarrow> r1 i = r2 i)
        \<longrightarrow> generateLoop_gamejs cfg r2 g = generateLoop_gamejs cfg r1 g)"
proof (induction cfg r1 g rule: generateLoop_gamejs.induct)
  case (1 cfg r1 g)
  show ?case
  proof (cases "generateStep_gamejs cfg r1 g")
    case (Return r)
    then have loop: "generateLoop_gamejs cfg r1 g = r"
      by (simp add: generateLoop_gamejs.simps [of cfg r1 g])
    from generateStep_gamejs_draws [of g cfg r1] Return have mono: "gen_draws g \<le> snd r" by simp
    have "generateLoop_gamejs cfg r2 g = r"
      if "\<forall>i. gen_draws g \<le> i \<and> i < snd r \<longrightarrow> r1 i = r2 i"
    proof -
      from that Return have "generateStep_gamejs cfg r2 g = generateStep_gamejs cfg r1 g"
        by (intro generateStep_gamejs_frame) simp
      with Return show ?thesis by (simp add: generateLoop_gamejs.simps [of cfg r2 g])
    qed
    with mono loop show ?thesis by simp
  next
    case (Continue g1)
    then have loop: "generateLoop_gamejs cfg r1 g = generateLoop_gamejs cfg r1 g1"
      by (simp add: generateLoop_gamejs.simps [of cfg r1 g])
    from generateStep_gamejs_draws [of g cfg r1] Continue have d: "gen_draws g \<le> gen_draws g1"
      by simp
    from 1 [OF Continue] have mono1: "gen_draws g1 \<le> snd (generateLoop_gamejs cfg r1 g1)"
      and ih: "(\<forall>i. gen_draws g1 \<le> i \<and> i < snd (generateLoop_gamejs cfg r1 g1) \<longrightarrow> r1 i = r2 i)
        \<Longrightarrow> generateLoop_gamejs cfg r2 g1 = generateLoop_gamejs cfg r1 g1" by blast+
    have "generateLoop_gamejs cfg r2 g = generateLoop_gamejs cfg r1 g1"
      if agree: "\<forall>i. gen_draws g \<le> i \<and> i < snd (generateLoop_gamejs cfg r1 g1) \<longrightarrow> r1 i = r2 i"
    proof -
      from agree mono1 Continue have "generateStep_gamejs cfg r2 g = generateStep_gamejs cfg r1 g"
        by (intro generateStep_gamejs_frame) simp
      with Continue have "generateLoop_gamejs cfg r2 g = generateLoop_gamejs cfg r2 g1"
        by (simp add: generateLoop_gamejs.simps [of cfg r2 g])
      moreover from agree d have "generateLoop_gamejs cfg r2 g1 = generateLoop_gamejs cfg r1 g1"
        by (intro ih) simp
      ultimately show ?thesis by simp
    qed
    with d mono1 loop show ?thesis by simp
  qed
qed

lemma generatePath_gamejs_deterministic:
  assumes "\<forall>i. k \<le> i \<and> i < snd (generatePath_gamejs cfg r1 k) \<longrightarrow> r1 i = r2 i"
  shows "generatePath_gamejs cfg r2 k = generatePath_gamejs cfg r1 k"
  using assms generateLoop_gamejs_frame [of "\<lparr>gen_attempts = 0, gen_draws = k\<rparr>" cfg r1 r2]
  by (simp add: generatePath_gamejs_def)

text \<open>What \<open>generatePath\<close> of \<open>game.js\<close> returns, within at most 100 attempts.\<close>

lemma generateLoop_gamejs_returns:
  "\<exists>n g'. loopStates (generateStep_gamejs cfg rnd) n g = Some g'
          \<and> generateStep_gamejs cfg rnd g' = Return (generateLoop_gamejs cfg rnd g)"
proof (induction cfg rnd g rule: generateLoop_gamejs.induct)
  case (1 cfg rnd g)
  show ?case
  proof (cases "generateStep_gamejs cfg rnd g")
    case (Continue g1)
    from 1 [OF Continue] obtain n g' where
      "loopStates (generateStep_gamejs cfg rnd) n g1 = Some g'"
      "generateStep_gamejs cfg rnd g' = Return (generateLoop_gamejs cfg rnd g1)" by blast
    moreover have "generateLoop_gamejs cfg rnd g = generateLoop_gamejs cfg rnd g1"
      using Continue by (simp add: generateLoop_gamejs.simps [of cfg rnd g])
    ultimately have "loopStates (generateStep_gamejs cfg rnd) (Suc n) g = Some g'
        \<and> generateStep_gamejs cfg rnd g' = Return (generateLoop_gamejs cfg rnd g)"
      using Continue by simp
    then show ?thesis by blast
  next
    case (Return r)
    then have "generateLoop_gamejs cfg rnd g = r"
      by (simp add: generateLoop_gamejs.simps [of cfg rnd g])
    with Return have "loopStates (generateStep_gamejs cfg rnd) 0 g = Some g
        \<and> generateStep_gamejs cfg rnd g = Return (generateLoop_gamejs cfg rnd g)" by simp
    then show ?thesis by blast
  qed
qed

lemma generateBounds_gamejs_step:
  assumes "gen_attempts a \<le> maxAttempts_gamejs" "generateStep_gamejs cfg rnd a = Continue b"
  shows "gen_attempts b \<le> maxAttempts_gamejs \<and> gen_attempts b = Suc (gen_attempts a)"
  using assms(2)
  by (auto simp: generateStep_gamejs_def split: if_splits prod.splits attempt_outcome.splits)

lemma generatePath_gamejs_result:
  assumes "0 < GRID_WIDTH cfg" "1 \<le> PATH_LENGTH cfg"
  shows "\<exists>n g' p. loopStates (generateStep_gamejs cfg rnd) n \<lparr>gen_attempts = 0, gen_draws = k\<rparr> = Some g'
      \<and> generateStep_gamejs cfg rnd g' = Return (generatePath_gamejs cfg rnd k)
      \<and> n \<le> maxAttempts_gamejs
      \<and> fst (generatePath_gamejs cfg rnd k) = Inr p
      \<and> consecutiveAdjacent cfg p
      \<and> (p = generateSnakePath cfg
          \<or> (int (length p) = PATH_LENGTH cfg \<and> distinct p \<and> noTouching cfg p))"
proof -
  let ?g0 = "\<lparr>gen_attempts = 0, gen_draws = k\<rparr>"
  obtain R where R: "generateLoop_gamejs cfg rnd ?g0 = R" by simp
  from generateLoop_gamejs_returns [of cfg rnd ?g0] obtain n g' where
    st: "loopStates (generateStep_gamejs cfg rnd) n ?g0 = Some g'"
    and ret: "generateStep_gamejs cfg rnd g' = Return R" unfolding R by blast
  have "gen_attempts ?g0 \<le> maxAttempts_gamejs" by simp
  with st have "gen_attempts g' \<le> maxAttempts_gamejs \<and> gen_attempts g' = gen_attempts ?g0 + n"
    by (rule loopStates_count) (rule generateBounds_gamejs_step)
  then have n: "n \<le> maxAttempts_gamejs" by simp
  let ?a = "attemptPathGeneration_gamejs cfg rnd (gen_draws g')"
  obtain out k1 where a: "?a = (out, k1)" by (cases ?a)
  have "\<exists>p. fst R = Inr p \<and> consecutiveAdjacent cfg p
      \<and> (p = generateSnakePath cfg
          \<or> (int (length p) = PATH_LENGTH cfg \<and> distinct p \<and> noTouching cfg p))"
  proof (cases "gen_attempts g' < maxAttempts_gamejs")
    case False
    with ret have "R = (Inr (generateSnakePath cfg), gen_draws g')"
      by (simp add: generateStep_gamejs_def)
    with generateSnakePath_adjacent [OF assms(1)] show ?thesis by simp
  next
    case True
    from attemptPathGeneration_gamejs_result [OF assms(2), of rnd "gen_draws g'"] a
    consider "out = Null"
      | p where "out = Path p" "int (length p) = PATH_LENGTH cfg" "distinct p"
          "consecutiveAdjacent cfg p" "noTouching cfg p" by auto
    then show ?thesis
    proof cases
      case 1
      with ret a True show ?thesis by (simp add: generateStep_gamejs_def)
    next
      case (2 p)
      with ret a True have "R = (Inr p, k1)"
        by (simp add: generateStep_gamejs_def split: if_splits)
      with 2 show ?thesis by simp
    qed
  qed
  with st ret n show ?thesis unfolding generatePath_gamejs_def R by blast
qed

section \<open>The peek request\<close>

text \<open>
  C10. A peek request increments \<open>peekCount\<close> exactly when the game is in RECALL mode,
  and in every mode it empties the list of the tiles the player selected and switches
  to MEMORIZE: the recall progress made so far is gone. The pattern and the timer are
  left as they are.
\<close>

theorem showPattern_peek:
  "peekCount (showPattern gs) = (if mode gs = RECALL then peekCount gs + 1 else peekCount gs)
   \<and> (peekCount (showPattern gs) = peekCount gs + 1 \<longleftrightarrow> mode gs = RECALL)
   \<and> userSelected (showPattern gs) = []
   \<and> mode (showPattern gs) = MEMORIZE
   \<and> pattern (showPattern gs) = pattern gs
   \<and> timerInterval (showPattern gs) = timerInterval gs
   \<and> startTime (showPattern gs) = startTime gs"
  by (simp add: showPattern_def)

theorem showPattern_peek_witness:
  "peekCount (showPattern \<lparr>pattern = [13, 14], userSelected = [13], mode = RECALL,
      timerInterval = Some 1, startTime = Some 0, peekCount = 2\<rparr>) = 3
   \<and> userSelected (showPattern \<lparr>pattern = [13, 14], userSelected = [13], mode = RECALL,
      timerInterval = Some 1, startTime = Some 0, peekCount = 2\<rparr>) = []"
  using showPattern_peek [of "\<lparr>pattern = [13, 14], userSelected = [13], mode = RECALL,
      timerInterval = Some 1, startTime = Some 0, peekCount = 2\<rparr>"]
  by simp

section \<open>No touching\<close>

text \<open>
  C2. A path that a search attempt returns has the full length \<open>PATH_LENGTH\<close>, and no
  two of its non-consecutive tiles are 4-directionally adjacent: for all positions
  \<open>i\<close>, \<open>j\<close> with \<open>|i - j| > 1\<close> the Manhattan distance of \<open>path[i]\<close> and
  \<open>path[j]\<close> is not 1. This holds on every grid and for every random source, so also
  for the tiles taken while \<open>wouldCreateLoop\<close> skips its check (fewer than 3 tiles:
  two distinct neighbours of one tile are never adjacent), for those the
  near-completion exception admits and for those the random fallback of
  \<open>chooseNextTile\<close> picks. The search of \<open>game.js\<close>, whose \<open>wouldCreateLoop\<close> has
  the same body, returns such paths as well, for every path length of at least 1.
\<close>

theorem search_path_no_touching:
  "(attemptPathGeneration cfg rnd k = (Path p, k')
      \<longrightarrow> int (length p) = PATH_LENGTH cfg
          \<and> (\<forall>i j. i < length p \<and> j < length p \<and> 1 < \<bar>int i - int j\<bar>
                \<longrightarrow> manhattan cfg (p ! i) (p ! j) \<noteq> 1))
   \<and> (1 \<le> PATH_LENGTH cfg \<and> attemptPathGeneration_gamejs cfg rnd k = (Path q, k'')
      \<longrightarrow> int (length q) = PATH_LENGTH cfg
          \<and> (\<forall>i j. i < length q \<and> j < length q \<and> 1 < \<bar>int i - int j\<bar>
                \<longrightarrow> manhattan cfg (q ! i) (q ! j) \<noteq> 1))"
proof -
  have a: "int (length p) = PATH_LENGTH cfg \<and> noTouching cfg p"
    if "attemptPathGeneration cfg rnd k = (Path p, k')"
    using attemptPathGeneration_result [of cfg rnd k] that by auto
  have b: "int (length q) = PATH_LENGTH cfg \<and> noTouching cfg q"
    if "1 \<le> PATH_LENGTH cfg \<and> attemptPathGeneration_gamejs cfg rnd k = (Path q, k'')"
    using attemptPathGeneration_gamejs_result [of cfg rnd k] that by auto
  from a b show ?thesis unfolding noTouching_def by blast
qed

theorem search_path_no_touching_witness:
  "attemptPathGeneration tinyConfig zeroDraws 0 = (Path [5, 9, 13], 4)
   \<and> manhattan tinyConfig ([5, 9, 13] ! 0) ([5, 9, 13] ! 2) \<noteq> 1
   \<and> attemptPathGeneration_gamejs tinyConfig zeroDraws 0 = (Path [0, 4, 5], 4)
   \<and> manhattan tinyConfig ([0, 4, 5] ! 0) ([0, 4, 5] ! 2) \<noteq> 1"
proof -
  have i: "(0::nat) < length [5, 9, 13 :: int] \<and> (2::nat) < length [5, 9, 13 :: int]
      \<and> 1 < \<bar>int 0 - int 2\<bar>"
    "(0::nat) < length [0, 4, 5 :: int] \<and> (2::nat) < length [0, 4, 5 :: int]
      \<and> 1 < \<bar>int 0 - int 2\<bar>" by simp_all
  have l: "1 \<le> PATH_LENGTH tinyConfig" by (simp add: tinyConfig_def)
  from search_path_no_touching [of tinyConfig zeroDraws 0 "[5, 9, 13]" 4 "[0, 4, 5]" 4]
    tiny_attempt tiny_attempt_gamejs l
  have "\<forall>i j. i < length [5, 9, 13 :: int] \<and> j < length [5, 9, 13 :: int] \<and> 1 < \<bar>int i - int j\<bar>
                \<longrightarrow> manhattan tinyConfig ([5, 9, 13] ! i) ([5, 9, 13] ! j) \<noteq> 1"
    "\<forall>i j. i < length [0, 4, 5 :: int] \<and> j < length [0, 4, 5 :: int] \<and> 1 < \<bar>int i - int j\<bar>
                \<longrightarrow> manhattan tinyConfig ([0, 4, 5] ! i) ([0, 4, 5] ! j) \<noteq> 1"
    by blast+
  with i tiny_attempt tiny_attempt_gamejs show ?thesis by blast
qed

section \<open>A full path or null\<close>

text \<open>
  C6, amended. In both scripts \<open>attemptPathGeneration\<close> returns \<open>null\<close> or a path
  of exactly \<open>PATH_LENGTH\<close> tiles, never a shorter one and never a fault (in
  \<open>game.js\<close> for a path length of at least 1; its constant is 36), and when the loop
  runs and the last tile has no valid neighbour, a path of length 1 makes the attempt
  return \<open>null\<close>. At a longer path the dead end of the responsive script removes the
  last tile from the path and from the visited set and increments the backtrack counter.
  \<open>game.js\<close> has no backtrack counter: its dead end removes the last tile from the
  path and changes nothing else, neither the visited set nor the number of draws.
\<close>

theorem attempt_full_path_or_null:
  "(fst (attemptPathGeneration cfg rnd k) = Null
      \<or> (\<exists>p. fst (attemptPathGeneration cfg rnd k) = Path p \<and> int (length p) = PATH_LENGTH cfg))
   \<and> (int (length (st_path s)) < PATH_LENGTH cfg \<and> st_backtrackCount s < maxBacktracks
        \<and> getValidNeighbors cfg (last (st_path s)) (st_visited s) (st_path s) = []
        \<and> length (st_path s) = 1
      \<longrightarrow> attemptStep cfg rnd s = Return (Null, st_draws s))
   \<and> (int (length (st_path s)) < PATH_LENGTH cfg \<and> st_backtrackCount s < maxBacktracks
        \<and> getValidNeighbors cfg (last (st_path s)) (st_visited s) (st_path s) = []
        \<and> 1 < length (st_path s)
      \<longrightarrow> attemptStep cfg rnd s =
            Continue (s\<lparr>st_path := butlast (st_path s),
                        st_visited := st_visited s - {last (st_path s)},
                        st_backtrackCount := st_backtrackCount s + 1\<rparr>))
   \<and> (1 \<le> PATH_LENGTH cfg
      \<longrightarrow> fst (attemptPathGeneration_gamejs cfg rnd k) = Null
          \<or> (\<exists>p. fst (attemptPathGeneration_gamejs cfg rnd k) = Path p
                \<and> int (length p) = PATH_LENGTH cfg))
   \<and> (int (length (gj_path g)) < PATH_LENGTH cfg
        \<and> getUnvisitedNeighbors cfg (last (gj_path g)) (gj_visited g) (gj_path g) = []
        \<and> length (gj_path g) = 1
      \<longrightarrow> attemptStep_gamejs cfg rnd g = Return (Null, gj_draws g))
   \<and> (int (length (gj_path g)) < PATH_LENGTH cfg
        \<and> getUnvisitedNeighbors cfg (last (gj_path g)) (gj_visited g) (gj_path g) = []
        \<and> 1 < length (gj_path g)
      \<longrightarrow> attemptStep_gamejs cfg rnd g = Continue (g\<lparr>gj_path := butlast (gj_path g)\<rparr>))"
proof -
  have r: "fst (attemptPathGeneration cfg rnd k) = Null
      \<or> (\<exists>p. fst (attemptPathGeneration cfg rnd k) = Path p \<and> int (length p) = PATH_LENGTH cfg)"
    using attemptPathGeneration_result [of cfg rnd k] by blast
  have cur: "arrayGet pth (int (length pth) - 1) = Some (last pth)" if "pth \<noteq> []"
    for pth :: "int list"
    using that by (simp add: arrayGet_def last_conv_nth nat_diff_distrib')
  have n: "attemptStep cfg rnd s = Return (Null, st_draws s)"
    if a: "int (length (st_path s)) < PATH_LENGTH cfg \<and> st_backtrackCount s < maxBacktracks
        \<and> getValidNeighbors cfg (last (st_path s)) (st_visited s) (st_path s) = []
        \<and> length (st_path s) = 1"
  proof -
    from a have "st_path s \<noteq> []" by auto
    from cur [OF this] a show ?thesis by (simp add: attemptStep_def)
  qed
  have p: "attemptStep cfg rnd s =
            Continue (s\<lparr>st_path := butlast (st_path s),
                        st_visited := st_visited s - {last (st_path s)},
                        st_backtrackCount := st_backtrackCount s + 1\<rparr>)"
    if a: "int (length (st_path s)) < PATH_LENGTH cfg \<and> st_backtrackCount s < maxBacktracks
        \<and> getValidNeighbors cfg (last (st_path s)) (st_visited s) (st_path s) = []
        \<and> 1 < length (st_path s)"
  proof -
    from a have "st_path s \<noteq> []" by auto
    from cur [OF this] a show ?thesis by (simp add: attemptStep_def Let_def)
  qed
  have r': "fst (attemptPathGeneration_gamejs cfg rnd k) = Null
          \<or> (\<exists>p. fst (attemptPathGeneration_gamejs cfg rnd k) = Path p
                \<and> int (length p) = PATH_LENGTH cfg)"
    if "1 \<le> PATH_LENGTH cfg"
    using attemptPathGeneration_gamejs_result [OF that, of rnd k] by blast
  have n': "attemptStep_gamejs cfg rnd g = Return (Null, gj_draws g)"
    if a: "int (length (gj_path g)) < PATH_LENGTH cfg
        \<and> getUnvisitedNeighbors cfg (last (gj_path g)) (gj_visited g) (gj_path g) = []
        \<and> length (gj_path g) = 1"
  proof -
    from a have "gj_path g \<noteq> []" by auto
    from cur [OF this] a show ?thesis by (simp add: attemptStep_gamejs_def)
  qed
  have p': "attemptStep_gamejs cfg rnd g = Continue (g\<lparr>gj_path := butlast (gj_path g)\<rparr>)"
    if a: "int (length (gj_path g)) < PATH_LENGTH cfg
        \<and> getUnvisitedNeighbors cfg (last (gj_path g)) (gj_visited g) (gj_path g) = []
        \<and> 1 < length (gj_path g)"
  proof -
    from a have "gj_path g \<noteq> []" by auto
    from cur [OF this] a show ?thesis by (simp add: attemptStep_gamejs_def Let_def)
  qed
  from r n p r' n' p' show ?thesis by blast
qed

theorem attempt_full_path_or_null_witness:
  "attemptStep \<lparr>GRID_WIDTH = 1, GRID_HEIGHT = 1, PATH_LENGTH = 2\<rparr> zeroDraws
      \<lparr>st_path = [0], st_visited = {0}, st_backtrackCount = 0, st_draws = 2\<rparr>
     = Return (Null, 2)
   \<and> attemptStep \<lparr>GRID_WIDTH = 4, GRID_HEIGHT = 4, PATH_LENGTH = 16\<rparr> zeroDraws
      \<lparr>st_path = [5, 4, 0], st_visited = {5, 4, 0}, st_backtrackCount = 0, st_draws = 4\<rparr>
     = Continue \<lparr>st_path = [5, 4], st_visited = {5, 4}, st_backtrackCount = 1, st_draws = 4\<rparr>
   \<and> attemptStep_gamejs desktopConfig cornerDraws
      \<lparr>gj_path = [14, 13, 1, 0], gj_visited = {0, 1, 13, 14}, gj_draws = 5\<rparr>
     = Continue \<lparr>gj_path = [14, 13, 1], gj_visited = {0, 1, 13, 14}, gj_draws = 5\<rparr>"
proof -
  let ?c1 = "\<lparr>GRID_WIDTH = 1, GRID_HEIGHT = 1, PATH_LENGTH = 2\<rparr>"
  let ?s1 = "\<lparr>st_path = [0], st_visited = {0}, st_backtrackCount = 0, st_draws = 2\<rparr>"
  let ?c2 = "\<lparr>GRID_WIDTH = 4, GRID_HEIGHT = 4, PATH_LENGTH = 16\<rparr>"
  let ?s2 = "\<lparr>st_path = [5, 4, 0], st_visited = {5, 4, 0}, st_backtrackCount = 0, st_draws = 4\<rparr>"
  let ?g = "\<lparr>gj_path = [14, 13, 1, 0], gj_visited = {0, 1, 13, 14}, gj_draws = 5\<rparr>"
  have p1: "int (length (st_path ?s1)) < PATH_LENGTH ?c1 \<and> st_backtrackCount ?s1 < maxBacktracks
        \<and> getValidNeighbors ?c1 (last (st_path ?s1)) (st_visited ?s1) (st_path ?s1) = []
        \<and> length (st_path ?s1) = 1"
    by (simp add: maxBacktracks_def getValidNeighbors_def directions_def Let_def)
  have p2: "int (length (st_path ?s2)) < PATH_LENGTH ?c2 \<and> st_backtrackCount ?s2 < maxBacktracks
        \<and> getValidNeighbors ?c2 (last (st_path ?s2)) (st_visited ?s2) (st_path ?s2) = []
        \<and> 1 < length (st_path ?s2)"
    by (simp add: maxBacktracks_def getValidNeighbors_def wouldCreateLoop_def directions_def
        smod_nonneg Let_def)
  have p3: "int (length (gj_path ?g)) < PATH_LENGTH desktopConfig
        \<and> getUnvisitedNeighbors desktopConfig (last (gj_path ?g)) (gj_visited ?g) (gj_path ?g) = []
        \<and> 1 < length (gj_path ?g)"
    by (simp add: desktopConfig_def getUnvisitedNeighbors_def wouldCreateLoop_gamejs_def
        directions_def smod_nonneg Let_def)
  from p1 attempt_full_path_or_null [of ?c1 zeroDraws 0 ?s1]
  have "attemptStep ?c1 zeroDraws ?s1 = Return (Null, st_draws ?s1)" by blast
  moreover from p2 attempt_full_path_or_null [of ?c2 zeroDraws 0 ?s2]
  have "attemptStep ?c2 zeroDraws ?s2 =
      Continue (?s2\<lparr>st_path := butlast (st_path ?s2),
                        st_visited := st_visited ?s2 - {last (st_path ?s2)},
                        st_backtrackCount := st_backtrackCount ?s2 + 1\<rparr>)" by blast
  moreover from p3 attempt_full_path_or_null [of desktopConfig cornerDraws 0 _ ?g]
  have "attemptStep_gamejs desktopConfig cornerDraws ?g
      = Continue (?g\<lparr>gj_path := butlast (gj_path ?g)\<rparr>)" by blast
  moreover have "{5, 4, 0} - {0} = {5, 4 :: int}" by auto
  ultimately show ?thesis by simp
qed

text \<open>
  The claim C6 as it is written fails on \<open>game.js\<close>, whose attempt keeps no backtrack
  counter. At the path \<open>[14, 13, 1, 0]\<close> the corner tile 0 has no valid neighbour; the
  step of \<open>game.js\<close> pops tile 0 from the path only: nothing is incremented (the one
  number of its state, the count of the draws, stays 5) and tile 0 stays in the visited
  set. The step of the responsive script in the same state removes tile 0 from both and
  takes the backtrack counter from 0 to 1.
\<close>

theorem attempt_full_path_or_null_counterexample:
  "attemptStep_gamejs desktopConfig cornerDraws
      \<lparr>gj_path = [14, 13, 1, 0], gj_visited = {0, 1, 13, 14}, gj_draws = 5\<rparr>
     = Continue \<lparr>gj_path = [14, 13, 1], gj_visited = {0, 1, 13, 14}, gj_draws = 5\<rparr>
   \<and> attemptStep desktopConfig cornerDraws
      \<lparr>st_path = [14, 13, 1, 0], st_visited = {0, 1, 13, 14}, st_backtrackCount = 0, st_draws = 5\<rparr>
     = Continue \<lparr>st_path = [14, 13, 1], st_visited = {1, 13, 14}, st_backtrackCount = 1,
         st_draws = 5\<rparr>
   \<and> gj_draws \<lparr>gj_path = [14, 13, 1], gj_visited = {0, 1, 13, 14}, gj_draws = 5\<rparr>
       \<noteq> gj_draws \<lparr>gj_path = [14, 13, 1, 0], gj_visited = {0, 1, 13, 14}, gj_draws = 5\<rparr> + 1
   \<and> 0 \<in> gj_visited \<lparr>gj_path = [14, 13, 1], gj_visited = {0, 1, 13, 14}, gj_draws = 5\<rparr>"
proof -
  have a: "attemptStep_gamejs desktopConfig cornerDraws
      \<lparr>gj_path = [14, 13, 1, 0], gj_visited = {0, 1, 13, 14}, gj_draws = 5\<rparr>
     = Continue \<lparr>gj_path = [14, 13, 1], gj_visited = {0, 1, 13, 14}, gj_draws = 5\<rparr>"
    by (simp add: desktopConfig_def attemptStep_gamejs_def getUnvisitedNeighbors_def
        wouldCreateLoop_gamejs_def directions_def arrayGet_def smod_nonneg Let_def)
  have "{0, 1, 13, 14} - {0} = {1, 13, 14 :: int}" by auto
  then have b: "attemptStep desktopConfig cornerDraws
      \<lparr>st_path = [14, 13, 1, 0], st_visited = {0, 1, 13, 14}, st_backtrackCount = 0, st_draws = 5\<rparr>
     = Continue \<lparr>st_path = [14, 13, 1], st_visited = {1, 13, 14}, st_backtrackCount = 1,
         st_draws = 5\<rparr>"
    by (simp add: desktopConfig_def attemptStep_def getValidNeighbors_def wouldCreateLoop_def
        directions_def arrayGet_def smod_nonneg maxBacktracks_def Let_def)
  from a b show ?thesis by simp
qed

section \<open>The generated path on the desktop grid\<close>

text \<open>
  C1. On the desktop layout (width 12, height 8, \<open>PATH_LENGTH = 36\<close>) every call of
  \<open>generatePath\<close>, for every random source, returns a sequence of exactly 36
  pairwise-distinct tile indices, each non-negative and below \<open>width * height = 96\<close>.
  The same holds of every path a search attempt returns and of the snake fallback, the
  two sources of the result.
\<close>

theorem generatePath_desktop:
  "(\<exists>p. fst (generatePath desktopConfig rnd k) = Inr p
        \<and> length p = 36 \<and> int (length p) = PATH_LENGTH desktopConfig \<and> distinct p
        \<and> (\<forall>c \<in> set p. 0 \<le> c \<and> c < GRID_WIDTH desktopConfig * GRID_HEIGHT desktopConfig))
   \<and> (\<forall>p. fst (attemptPathGeneration desktopConfig rnd k) = Path p
        \<longrightarrow> length p = 36 \<and> distinct p
            \<and> (\<forall>c \<in> set p. 0 \<le> c \<and> c < GRID_WIDTH desktopConfig * GRID_HEIGHT desktopConfig))
   \<and> length (generateSnakePath desktopConfig) = 36 \<and> distinct (generateSnakePath desktopConfig)
   \<and> (\<forall>c \<in> set (generateSnakePath desktopConfig).
          0 \<le> c \<and> c < GRID_WIDTH desktopConfig * GRID_HEIGHT desktopConfig)"
proof -
  let ?ok = "\<lambda>p. length p = 36 \<and> int (length p) = PATH_LENGTH desktopConfig \<and> distinct p
        \<and> (\<forall>c \<in> set p. 0 \<le> c \<and> c < GRID_WIDTH desktopConfig * GRID_HEIGHT desktopConfig)"
  have dims: "2 \<le> GRID_WIDTH desktopConfig" "2 \<le> GRID_HEIGHT desktopConfig"
    "PATH_LENGTH desktopConfig = 36" "GRID_WIDTH desktopConfig * GRID_HEIGHT desktopConfig = 96"
    by (simp_all add: desktopConfig_def)
  have search: "?ok p" if "fst (attemptPathGeneration desktopConfig rnd k0) = Path p" for p k0
  proof -
    from attemptPathGeneration_result [of desktopConfig rnd k0] that
    have "int (length p) = PATH_LENGTH desktopConfig" "distinct p" by auto
    moreover from attemptPathGeneration_inGrid [OF dims(1,2) that]
    have "\<forall>c \<in> set p. inGrid desktopConfig c" .
    ultimately show ?thesis by (simp add: inGrid_def dims)
  qed
  have snake: "?ok (generateSnakePath desktopConfig)"
    using desktop_snake_valid by (simp add: dims)
  from generatePath_result [of desktopConfig rnd k] obtain p where
    "fst (generatePath desktopConfig rnd k) = Inr p"
    "p = generateSnakePath desktopConfig
       \<or> (\<exists>k0. fst (attemptPathGeneration desktopConfig rnd k0) = Path p)" by blast
  with search snake have "\<exists>p. fst (generatePath desktopConfig rnd k) = Inr p \<and> ?ok p" by blast
  with search [where ?k0.0 = k] snake show ?thesis by blast
qed

theorem generatePath_desktop_witness:
  "\<exists>p. fst (generatePath desktopConfig zeroDraws 0) = Inr p \<and> length p = 36 \<and> distinct p"
  using generatePath_desktop [of zeroDraws 0] by blast

section \<open>Consecutive tiles are adjacent\<close>

text \<open>
  C3. In every sequence \<open>generatePath\<close> returns, every two consecutive tiles are
  4-directionally adjacent: the Manhattan distance of \<open>path[i]\<close> and \<open>path[i+1]\<close>
  is exactly 1. This holds of every searched path and of the snake fallback, on every
  grid with a positive width, and of what \<open>generatePath\<close> of \<open>game.js\<close> returns.
\<close>

theorem generatePath_consecutive_adjacent:
  assumes "0 < GRID_WIDTH cfg"
  shows "(\<exists>p. fst (generatePath cfg rnd k) = Inr p
          \<and> (\<forall>i. Suc i < length p \<longrightarrow> manhattan cfg (p ! i) (p ! Suc i) = 1))
     \<and> (\<forall>p. fst (attemptPathGeneration cfg rnd k) = Path p
          \<longrightarrow> (\<forall>i. Suc i < length p \<longrightarrow> manhattan cfg (p ! i) (p ! Suc i) = 1))
     \<and> (\<forall>i. Suc i < length (generateSnakePath cfg)
          \<longrightarrow> manhattan cfg (generateSnakePath cfg ! i) (generateSnakePath cfg ! Suc i) = 1)
     \<and> (1 \<le> PATH_LENGTH cfg
          \<longrightarrow> (\<exists>p. fst (generatePath_gamejs cfg rnd k) = Inr p
                \<and> (\<forall>i. Suc i < length p \<longrightarrow> manhattan cfg (p ! i) (p ! Suc i) = 1)))"
proof -
  have search: "consecutiveAdjacent cfg p"
    if "fst (attemptPathGeneration cfg rnd k0) = Path p" for p k0
    using attemptPathGeneration_result [of cfg rnd k0] that by auto
  have snake: "consecutiveAdjacent cfg (generateSnakePath cfg)"
    using assms by (rule generateSnakePath_adjacent)
  from generatePath_result [of cfg rnd k] obtain p where
    "fst (generatePath cfg rnd k) = Inr p"
    "p = generateSnakePath cfg \<or> (\<exists>k0. fst (attemptPathGeneration cfg rnd k0) = Path p)"
    by blast
  with search snake have "\<exists>p. fst (generatePath cfg rnd k) = Inr p \<and> consecutiveAdjacent cfg p"
    by blast
  moreover have "\<exists>p. fst (generatePath_gamejs cfg rnd k) = Inr p \<and> consecutiveAdjacent cfg p"
    if "1 \<le> PATH_LENGTH cfg"
    using generatePath_gamejs_result [OF assms that, of rnd k] by blast
  ultimately show ?thesis
    using search [where ?k0.0 = k] snake unfolding consecutiveAdjacent_def by blast
qed

theorem generatePath_consecutive_adjacent_witness:
  "0 < GRID_WIDTH desktopConfig
   \<and> manhattan desktopConfig (generateSnakePath desktopConfig ! 11)
        (generateSnakePath desktopConfig ! Suc 11) = 1
   \<and> generateSnakePath desktopConfig ! 11 = 11 \<and> generateSnakePath desktopConfig ! Suc 11 = 23"
proof -
  have w: "0 < GRID_WIDTH desktopConfig" by (simp add: desktopConfig_def)
  have "Suc 11 < length (generateSnakePath desktopConfig)" by (simp add: desktop_snake)
  moreover from generatePath_consecutive_adjacent [OF w, of zeroDraws 0]
  have "\<forall>i. Suc i < length (generateSnakePath desktopConfig)
          \<longrightarrow> manhattan desktopConfig (generateSnakePath desktopConfig ! i)
                (generateSnakePath desktopConfig ! Suc i) = 1" by blast
  ultimately have "manhattan desktopConfig (generateSnakePath desktopConfig ! 11)
        (generateSnakePath desktopConfig ! Suc 11) = 1" by blast
  moreover have "generateSnakePath desktopConfig ! 11 = 11"
    "generateSnakePath desktopConfig ! Suc 11 = 23" by (simp_all add: desktop_snake)
  ultimately show ?thesis using w by blast
qed

section \<open>Path generation terminates\<close>

text \<open>
  C5. Path generation always terminates, on every grid and for every path length (also
  \<open>PATH_LENGTH = width * height\<close> and \<open>PATH_LENGTH > width * height\<close>: the theorem
  has no hypothesis). The three loops are total functions, and each returns within a
  bounded number of evaluations of its condition:
  \<^item> the loop of one attempt returns after \<open>n\<close> runs of its body, of which
    \<open>backtrackCount \<le> maxBacktracks\<close> are pops and \<open>n - backtrackCount\<close> are
    pushes, at most \<open>PATH_LENGTH\<close> plus the pops; so \<open>n \<le> PATH_LENGTH + 2 * maxBacktracks\<close>;
  \<^item> \<open>generatePath\<close> returns after \<open>n \<le> maxAttempts\<close> failed attempts, \<open>n\<close> being
    the value of its counter \<open>attempts\<close>;
  \<^item> the loop of \<open>generateSnakePath\<close> returns after at most \<open>PATH_LENGTH\<close> runs of
    its body;
  \<^item> in \<open>game.js\<close>, where the backtracks have no bound of their own, the loop of one
    attempt returns after at most \<open>2 * width * height + 1\<close> runs of its body, and
    \<open>generatePath\<close> returns after \<open>n \<le> 100\<close> failed attempts.
\<close>

theorem generation_terminates:
  "(\<exists>n s'. loopStates (attemptStep cfg rnd) n (attemptInit cfg rnd k) = Some s'
        \<and> attemptStep cfg rnd s' = Return (attemptPathGeneration cfg rnd k)
        \<and> st_backtrackCount s' \<le> maxBacktracks
        \<and> n - st_backtrackCount s' \<le> nat (PATH_LENGTH cfg) + st_backtrackCount s'
        \<and> n \<le> nat (PATH_LENGTH cfg) + 2 * maxBacktracks)
   \<and> (\<exists>n g'. loopStates (generateStep cfg rnd) n \<lparr>gen_attempts = 0, gen_draws = k\<rparr> = Some g'
        \<and> generateStep cfg rnd g' = Return (generatePath cfg rnd k)
        \<and> gen_attempts g' = n \<and> n \<le> maxAttempts)
   \<and> (\<exists>n s'. loopStates (snakeStep cfg) n
            \<lparr>sn_path = [], sn_x = 0, sn_y = 0, sn_direction = 1\<rparr> = Some s'
        \<and> snakeStep cfg s' = Return (generateSnakePath cfg)
        \<and> n \<le> nat (PATH_LENGTH cfg))
   \<and> (\<exists>n g'. loopStates (attemptStep_gamejs cfg rnd) n (attemptInit_gamejs cfg rnd k) = Some g'
        \<and> attemptStep_gamejs cfg rnd g' = Return (attemptPathGeneration_gamejs cfg rnd k)
        \<and> n \<le> 2 * nat (GRID_WIDTH cfg * GRID_HEIGHT cfg) + 1)
   \<and> (\<exists>n g'. loopStates (generateStep_gamejs cfg rnd) n \<lparr>gen_attempts = 0, gen_draws = k\<rparr>
            = Some g'
        \<and> generateStep_gamejs cfg rnd g' = Return (generatePath_gamejs cfg rnd k)
        \<and> gen_attempts g' = n \<and> n \<le> maxAttempts_gamejs)"
proof (intro conjI)
  let ?s0 = "attemptInit cfg rnd k"
  from attemptLoop_returns [of cfg rnd ?s0] obtain n s' where
    st: "loopStates (attemptStep cfg rnd) n ?s0 = Some s'"
    and ret: "attemptStep cfg rnd s' = Return (attemptLoop cfg rnd ?s0)" by blast
  from st attemptBounds_init
  have "attemptBounds cfg s' \<and> length (st_path s') + 2 * st_backtrackCount s'
      = length (st_path ?s0) + 2 * st_backtrackCount ?s0 + n"
    by (rule loopStates_count) (rule attemptBounds_step)
  then have b: "st_backtrackCount s' \<le> maxBacktracks"
    "length (st_path s') \<le> max 1 (nat (PATH_LENGTH cfg))"
    and c: "length (st_path s') + 2 * st_backtrackCount s' = Suc n"
    by (simp_all add: attemptBounds_def attemptInit_def Let_def)
  from b c have "n - st_backtrackCount s' \<le> nat (PATH_LENGTH cfg) + st_backtrackCount s'"
    "n \<le> nat (PATH_LENGTH cfg) + 2 * maxBacktracks" by linarith+
  with st ret b(1) show "\<exists>n s'. loopStates (attemptStep cfg rnd) n ?s0 = Some s'
        \<and> attemptStep cfg rnd s' = Return (attemptPathGeneration cfg rnd k)
        \<and> st_backtrackCount s' \<le> maxBacktracks
        \<and> n - st_backtrackCount s' \<le> nat (PATH_LENGTH cfg) + st_backtrackCount s'
        \<and> n \<le> nat (PATH_LENGTH cfg) + 2 * maxBacktracks"
    unfolding attemptPathGeneration_def by blast
next
  let ?g0 = "\<lparr>gen_attempts = 0, gen_draws = k\<rparr>"
  from generateLoop_returns [of cfg rnd ?g0] obtain n g' where
    st: "loopStates (generateStep cfg rnd) n ?g0 = Some g'"
    and ret: "generateStep cfg rnd g' = Return (generateLoop cfg rnd ?g0)" by blast
  have "gen_attempts ?g0 \<le> maxAttempts" by simp
  with st have "gen_attempts g' \<le> maxAttempts \<and> gen_attempts g' = gen_attempts ?g0 + n"
    by (rule loopStates_count) (rule generateBounds_step)
  then have "gen_attempts g' = n" "n \<le> maxAttempts" by simp_all
  with st ret show "\<exists>n g'. loopStates (generateStep cfg rnd) n ?g0 = Some g'
        \<and> generateStep cfg rnd g' = Return (generatePath cfg rnd k)
        \<and> gen_attempts g' = n \<and> n \<le> maxAttempts"
    unfolding generatePath_def by blast
next
  let ?s0 = "\<lparr>sn_path = [], sn_x = 0, sn_y = 0, sn_direction = 1\<rparr>"
  from snakeLoop_returns [of cfg ?s0] obtain n s' where
    st: "loopStates (snakeStep cfg) n ?s0 = Some s'"
    and ret: "snakeStep cfg s' = Return (snakeLoop cfg ?s0)" by blast
  have "length (sn_path ?s0) \<le> nat (PATH_LENGTH cfg)" by simp
  with st have "length (sn_path s') \<le> nat (PATH_LENGTH cfg)
      \<and> length (sn_path s') = length (sn_path ?s0) + n"
    by (rule loopStates_count) (rule snakeBounds_step)
  then have "n \<le> nat (PATH_LENGTH cfg)" by simp
  with st ret show "\<exists>n s'. loopStates (snakeStep cfg) n ?s0 = Some s'
        \<and> snakeStep cfg s' = Return (generateSnakePath cfg) \<and> n \<le> nat (PATH_LENGTH cfg)"
    unfolding generateSnakePath_def by blast
next
  show "\<exists>n g'. loopStates (attemptStep_gamejs cfg rnd) n (attemptInit_gamejs cfg rnd k) = Some g'
        \<and> attemptStep_gamejs cfg rnd g' = Return (attemptPathGeneration_gamejs cfg rnd k)
        \<and> n \<le> 2 * nat (GRID_WIDTH cfg * GRID_HEIGHT cfg) + 1"
    by (rule attemptPathGeneration_gamejs_terminates)
next
  let ?g0 = "\<lparr>gen_attempts = 0, gen_draws = k\<rparr>"
  from generateLoop_gamejs_returns [of cfg rnd ?g0] obtain n g' where
    st: "loopStates (generateStep_gamejs cfg rnd) n ?g0 = Some g'"
    and ret: "generateStep_gamejs cfg rnd g' = Return (generateLoop_gamejs cfg rnd ?g0)" by blast
  have "gen_attempts ?g0 \<le> maxAttempts_gamejs" by simp
  with st have "gen_attempts g' \<le> maxAttempts_gamejs \<and> gen_attempts g' = gen_attempts ?g0 + n"
    by (rule loopStates_count) (rule generateBounds_gamejs_step)
  then have "gen_attempts g' = n" "n \<le> maxAttempts_gamejs" by simp_all
  with st ret show "\<exists>n g'. loopStates (generateStep_gamejs cfg rnd) n ?g0 = Some g'
        \<and> generateStep_gamejs cfg rnd g' = Return (generatePath_gamejs cfg rnd k)
        \<and> gen_attempts g' = n \<and> n \<le> maxAttempts_gamejs"
    unfolding generatePath_gamejs_def by blast
qed

theorem generation_terminates_witness:
  "(\<exists>n s'. loopStates (attemptStep tinyConfig zeroDraws) n (attemptInit tinyConfig zeroDraws 0) = Some s'
        \<and> attemptStep tinyConfig zeroDraws s' = Return (Path [5, 9, 13], 4)
        \<and> n \<le> nat (PATH_LENGTH tinyConfig) + 2 * maxBacktracks)
   \<and> (\<exists>n s'. loopStates (snakeStep \<lparr>GRID_WIDTH = 4, GRID_HEIGHT = 4, PATH_LENGTH = 17\<rparr>) n
            \<lparr>sn_path = [], sn_x = 0, sn_y = 0, sn_direction = 1\<rparr> = Some s'
        \<and> snakeStep \<lparr>GRID_WIDTH = 4, GRID_HEIGHT = 4, PATH_LENGTH = 17\<rparr> s'
            = Return (generateSnakePath \<lparr>GRID_WIDTH = 4, GRID_HEIGHT = 4, PATH_LENGTH = 17\<rparr>)
        \<and> n \<le> 17)
   \<and> (\<exists>n g'. loopStates (attemptStep_gamejs desktopConfig cornerDraws) n
            (attemptInit_gamejs desktopConfig cornerDraws 0) = Some g'
        \<and> attemptStep_gamejs desktopConfig cornerDraws g'
            = Return (attemptPathGeneration_gamejs desktopConfig cornerDraws 0)
        \<and> n \<le> 193)"
proof (intro conjI)
  from generation_terminates [of tinyConfig zeroDraws 0]
  show "\<exists>n s'. loopStates (attemptStep tinyConfig zeroDraws) n (attemptInit tinyConfig zeroDraws 0) = Some s'
        \<and> attemptStep tinyConfig zeroDraws s' = Return (Path [5, 9, 13], 4)
        \<and> n \<le> nat (PATH_LENGTH tinyConfig) + 2 * maxBacktracks"
    unfolding tiny_attempt by blast
next
  let ?c = "\<lparr>GRID_WIDTH = 4, GRID_HEIGHT = 4, PATH_LENGTH = 17\<rparr>"
  have "nat (PATH_LENGTH ?c) = 17" by simp
  with generation_terminates [of ?c zeroDraws 0]
  show "\<exists>n s'. loopStates (snakeStep ?c) n
            \<lparr>sn_path = [], sn_x = 0, sn_y = 0, sn_direction = 1\<rparr> = Some s'
        \<and> snakeStep ?c s' = Return (generateSnakePath ?c) \<and> n \<le> 17"
    by metis
next
  have "2 * nat (GRID_WIDTH desktopConfig * GRID_HEIGHT desktopConfig) + 1 = 193"
    by (simp add: desktopConfig_def)
  with generation_terminates [of desktopConfig cornerDraws 0]
  show "\<exists>n g'. loopStates (attemptStep_gamejs desktopConfig cornerDraws) n
            (attemptInit_gamejs desktopConfig cornerDraws 0) = Some g'
        \<and> attemptStep_gamejs desktopConfig cornerDraws g'
            = Return (attemptPathGeneration_gamejs desktopConfig cornerDraws 0)
        \<and> n \<le> 193"
    by metis
qed

section \<open>The result is a function of the draws\<close>

text \<open>
  C9. Path generation is deterministic in its random source. \<open>generatePath\<close> reads
  the generator outputs one after the other, from the count \<open>k\<close> it starts at to the
  count it returns; if a second random source gives the same outputs at these positions
  (whatever it gives later), the second run on the same grid and path length returns
  the same path and has made the same number of draws. Nothing else of the
  environment is read: neither the order of a \<open>Set\<close> nor the clock. The same holds of
  \<open>generatePath\<close> of \<open>game.js\<close>.
\<close>

theorem generatePath_deterministic:
  "((\<forall>i. k \<le> i \<and> i < snd (generatePath cfg r1 k) \<longrightarrow> r1 i = r2 i)
      \<longrightarrow> generatePath cfg r2 k = generatePath cfg r1 k)
   \<and> ((\<forall>i. k \<le> i \<and> i < snd (generatePath_gamejs cfg r1 k) \<longrightarrow> r1 i = r2 i)
      \<longrightarrow> generatePath_gamejs cfg r2 k = generatePath_gamejs cfg r1 k)"
proof (intro conjI impI)
  assume "\<forall>i. k \<le> i \<and> i < snd (generatePath cfg r1 k) \<longrightarrow> r1 i = r2 i"
  then show "generatePath cfg r2 k = generatePath cfg r1 k"
    using generateLoop_frame [of "\<lparr>gen_attempts = 0, gen_draws = k\<rparr>" cfg r1 r2]
    by (simp add: generatePath_def)
next
  assume "\<forall>i. k \<le> i \<and> i < snd (generatePath_gamejs cfg r1 k) \<longrightarrow> r1 i = r2 i"
  then show "generatePath_gamejs cfg r2 k = generatePath_gamejs cfg r1 k"
    by (rule generatePath_gamejs_deterministic)
qed

theorem generatePath_deterministic_witness:
  "generatePath tinyConfig laterDraws 0 = (Inr [5, 9, 13], 4)
   \<and> snd (generatePath tinyConfig zeroDraws 0) = 4
   \<and> generatePath_gamejs tinyConfig laterDraws 0 = (Inr [0, 4, 5], 4)
   \<and> snd (generatePath_gamejs tinyConfig zeroDraws 0) = 4
   \<and> laterDraws 4 \<noteq> zeroDraws 4"
proof -
  have a: "\<forall>i. 0 \<le> i \<and> i < snd (generatePath tinyConfig zeroDraws 0) \<longrightarrow> zeroDraws i = laterDraws i"
    unfolding tiny_generate by (simp add: zeroDraws_def laterDraws_def)
  have b: "\<forall>i. 0 \<le> i \<and> i < snd (generatePath_gamejs tinyConfig zeroDraws 0)
      \<longrightarrow> zeroDraws i = laterDraws i"
    unfolding tiny_generate_gamejs by (simp add: zeroDraws_def laterDraws_def)
  from a b generatePath_deterministic [of 0 tinyConfig zeroDraws laterDraws]
  have "generatePath tinyConfig laterDraws 0 = (Inr [5, 9, 13], 4)"
    "generatePath_gamejs tinyConfig laterDraws 0 = (Inr [0, 4, 5], 4)"
    unfolding tiny_generate tiny_generate_gamejs by blast+
  moreover have "floorRandomTimes (laterDraws 4) 2 \<noteq> floorRandomTimes (zeroDraws 4) 2"
    by (simp add: laterDraws_def zeroDraws_def floorRandomTimes_fraction)
  then have "laterDraws 4 \<noteq> zeroDraws 4" by auto
  ultimately show ?thesis by (simp add: tiny_generate tiny_generate_gamejs)
qed

section \<open>The visited set and the path\<close>

text \<open>
  C4, amended. In the responsive script the visited set is mutated in lock-step with
  the path: at every evaluation of the condition of the search loop the visited set is
  exactly the set of the tiles of the path (and the path has no repetition), and a
  backtracking step removes the popped tile from the path and from the visited set.
  In \<open>game.js\<close> a backtracking step pops the path only and leaves the visited set as
  it is: there the visited set holds every tile pushed during the attempt, a superset
  of the tiles of the path.
\<close>

theorem visited_lock_step:
  "(loopStates (attemptStep cfg rnd) n (attemptInit cfg rnd k) = Some s
      \<longrightarrow> st_visited s = set (st_path s) \<and> distinct (st_path s))
   \<and> (st_path s \<noteq> [] \<and> attemptStep cfg rnd s = Continue s'
        \<and> length (st_path s') < length (st_path s)
      \<longrightarrow> st_path s' = butlast (st_path s)
          \<and> st_visited s' = st_visited s - {last (st_path s)})
   \<and> (loopStates (attemptStep_gamejs cfg rnd) n (attemptInit_gamejs cfg rnd k) = Some g
      \<longrightarrow> set (gj_path g) \<subseteq> gj_visited g)
   \<and> (gj_path g \<noteq> [] \<and> attemptStep_gamejs cfg rnd g = Continue g'
        \<and> length (gj_path g') < length (gj_path g)
      \<longrightarrow> gj_path g' = butlast (gj_path g) \<and> gj_visited g' = gj_visited g)"
proof -
  have a: "st_visited s = set (st_path s) \<and> distinct (st_path s)"
    if "loopStates (attemptStep cfg rnd) n (attemptInit cfg rnd k) = Some s"
  proof -
    from that lockStep_init have "lockStep s"
      by (rule loopStates_invariant) (rule lockStep_step)
    then show ?thesis by (simp add: lockStep_def)
  qed
  have b: "st_path s' = butlast (st_path s) \<and> st_visited s' = st_visited s - {last (st_path s)}"
    if "st_path s \<noteq> [] \<and> attemptStep cfg rnd s = Continue s'
        \<and> length (st_path s') < length (st_path s)"
  proof -
    from that have "attemptStep cfg rnd s = Continue s'" "st_path s \<noteq> []" by simp_all
    then show ?thesis using that by (cases rule: attemptStep_cases) simp_all
  qed
  have c: "set (gj_path g) \<subseteq> gj_visited g"
    if "loopStates (attemptStep_gamejs cfg rnd) n (attemptInit_gamejs cfg rnd k) = Some g"
  proof -
    from that visitedCovers_init have "visitedCovers g"
      by (rule loopStates_invariant) (rule visitedCovers_step)
    then show ?thesis by (simp add: visitedCovers_def)
  qed
  have d: "gj_path g' = butlast (gj_path g) \<and> gj_visited g' = gj_visited g"
    if "gj_path g \<noteq> [] \<and> attemptStep_gamejs cfg rnd g = Continue g'
        \<and> length (gj_path g') < length (gj_path g)"
  proof -
    from that have "attemptStep_gamejs cfg rnd g = Continue g'" "gj_path g \<noteq> []" by simp_all
    then show ?thesis using that by (cases rule: attemptStep_gamejs_cases) simp_all
  qed
  from a b c d show ?thesis by blast
qed

theorem visited_lock_step_witness:
  "st_visited \<lparr>st_path = [5, 9, 13], st_visited = {5, 9, 13}, st_backtrackCount = 0, st_draws = 4\<rparr>
     = set [5, 9, 13]
   \<and> set [14, 13, 1] \<subseteq> {0, 1, 13, 14 :: int}
   \<and> loopStates (attemptStep tinyConfig zeroDraws) 2 (attemptInit tinyConfig zeroDraws 0)
       = Some \<lparr>st_path = [5, 9, 13], st_visited = {5, 9, 13}, st_backtrackCount = 0, st_draws = 4\<rparr>"
proof -
  let ?s = "\<lparr>st_path = [5, 9, 13], st_visited = {5, 9, 13}, st_backtrackCount = 0, st_draws = 4\<rparr>"
  let ?g = "\<lparr>gj_path = [14, 13, 1], gj_visited = {0, 1, 13, 14}, gj_draws = 5\<rparr>"
  from visited_lock_step [of tinyConfig zeroDraws 2 0 ?s] tiny_states
  have "st_visited ?s = set (st_path ?s)" by blast
  moreover from visited_lock_step [of desktopConfig cornerDraws 4 0 _ _ ?g] gamejs_corner_run
  have "set (gj_path ?g) \<subseteq> gj_visited ?g" by blast
  ultimately show ?thesis using tiny_states by simp
qed

text \<open>
  The claim C4 as it is written fails on \<open>game.js\<close>: with draws that start the attempt
  at tile 14 and lead it through 13 and 1 into the corner tile 0, the dead end pops 0
  from the path, and at the fourth evaluation of the loop condition the path is
  \<open>[14, 13, 1]\<close> while the visited set still holds 0.
\<close>

theorem visited_lock_step_counterexample:
  "loopStates (attemptStep_gamejs desktopConfig cornerDraws) 4
     (attemptInit_gamejs desktopConfig cornerDraws 0)
   = Some \<lparr>gj_path = [14, 13, 1], gj_visited = {0, 1, 13, 14}, gj_draws = 5\<rparr>
   \<and> gj_visited \<lparr>gj_path = [14, 13, 1], gj_visited = {0, 1, 13, 14}, gj_draws = 5\<rparr>
       \<noteq> set (gj_path \<lparr>gj_path = [14, 13, 1], gj_visited = {0, 1, 13, 14}, gj_draws = 5\<rparr>)"
proof -
  have "(0::int) \<in> {0, 1, 13, 14}" "(0::int) \<notin> set [14, 13, 1]" by simp_all
  then have "{0, 1, 13, 14} \<noteq> set [14, 13, 1 :: int]" by blast
  with gamejs_corner_run show ?thesis by simp
qed

section \<open>The start tile\<close>

text \<open>
  C8, amended. In the responsive script every generation attempt starts from an
  interior tile: on a grid of at least 3 by 3 the coordinates of the start tile satisfy
  \<open>1 \<le> x \<le> width - 2\<close> and \<open>1 \<le> y \<le> height - 2\<close>, so the start is never on
  the outer ring; \<open>x - 1\<close> and \<open>y - 1\<close> are the floors of a draw times \<open>width - 2\<close>
  and of the next draw times \<open>height - 2\<close>, so every interior column and row is hit
  by an interval of draws of the same length (\<open>floorRandomTimes_interval\<close>). In
  \<open>game.js\<close> the start tile is drawn from the whole grid, \<open>0 \<le> x \<le> width - 1\<close> and
  \<open>0 \<le> y \<le> height - 1\<close>, and can lie on the outer ring.
\<close>

theorem attempt_start_tile:
  "(3 \<le> GRID_WIDTH cfg \<and> 3 \<le> GRID_HEIGHT cfg \<longrightarrow>
      (\<exists>c. st_path (attemptInit cfg rnd k) = [c] \<and> st_visited (attemptInit cfg rnd k) = {c}
         \<and> 1 \<le> tileX cfg c \<and> tileX cfg c \<le> GRID_WIDTH cfg - 2
         \<and> 1 \<le> tileY cfg c \<and> tileY cfg c \<le> GRID_HEIGHT cfg - 2
         \<and> tileX cfg c = 1 + floorRandomTimes (rnd k) (GRID_WIDTH cfg - 2)
         \<and> tileY cfg c = 1 + floorRandomTimes (rnd (Suc k)) (GRID_HEIGHT cfg - 2)))
   \<and> (0 < GRID_WIDTH cfg \<and> 0 < GRID_HEIGHT cfg \<longrightarrow>
      (\<exists>c. gj_path (attemptInit_gamejs cfg rnd k) = [c]
         \<and> gj_visited (attemptInit_gamejs cfg rnd k) = {c}
         \<and> 0 \<le> tileX cfg c \<and> tileX cfg c \<le> GRID_WIDTH cfg - 1
         \<and> 0 \<le> tileY cfg c \<and> tileY cfg c \<le> GRID_HEIGHT cfg - 1))
   \<and> attemptPathGeneration cfg rnd k = attemptLoop cfg rnd (attemptInit cfg rnd k)"
proof -
  have a: "\<exists>c. st_path (attemptInit cfg rnd k) = [c] \<and> st_visited (attemptInit cfg rnd k) = {c}
         \<and> 1 \<le> tileX cfg c \<and> tileX cfg c \<le> GRID_WIDTH cfg - 2
         \<and> 1 \<le> tileY cfg c \<and> tileY cfg c \<le> GRID_HEIGHT cfg - 2
         \<and> tileX cfg c = 1 + floorRandomTimes (rnd k) (GRID_WIDTH cfg - 2)
         \<and> tileY cfg c = 1 + floorRandomTimes (rnd (Suc k)) (GRID_HEIGHT cfg - 2)"
    if dims: "3 \<le> GRID_WIDTH cfg \<and> 3 \<le> GRID_HEIGHT cfg"
  proof -
    let ?x = "1 + floorRandomTimes (rnd k) (GRID_WIDTH cfg - 2)"
    let ?y = "1 + floorRandomTimes (rnd (Suc k)) (GRID_HEIGHT cfg - 2)"
    let ?c = "?y * GRID_WIDTH cfg + ?x"
    from dims have "0 < GRID_WIDTH cfg - 2" "0 < GRID_HEIGHT cfg - 2" by simp_all
    from floorRandomTimes_bounds [OF this(1), of "rnd k"]
      floorRandomTimes_bounds [OF this(2), of "rnd (Suc k)"]
    have x: "1 \<le> ?x" "?x \<le> GRID_WIDTH cfg - 2" and y: "1 \<le> ?y" "?y \<le> GRID_HEIGHT cfg - 2"
      by simp_all
    from dims x y have "0 < GRID_WIDTH cfg" "0 \<le> ?x" "?x < GRID_WIDTH cfg" "0 \<le> ?y"
      by simp_all
    from cell_coordinates [OF this] have "tileX cfg ?c = ?x" "tileY cfg ?c = ?y" .
    moreover have "st_path (attemptInit cfg rnd k) = [?c]" "st_visited (attemptInit cfg rnd k) = {?c}"
      by (simp_all add: attemptInit_def Let_def)
    ultimately show ?thesis using x y by (intro exI [of _ ?c]) simp
  qed
  have b: "\<exists>c. gj_path (attemptInit_gamejs cfg rnd k) = [c]
         \<and> gj_visited (attemptInit_gamejs cfg rnd k) = {c}
         \<and> 0 \<le> tileX cfg c \<and> tileX cfg c \<le> GRID_WIDTH cfg - 1
         \<and> 0 \<le> tileY cfg c \<and> tileY cfg c \<le> GRID_HEIGHT cfg - 1"
    if dims: "0 < GRID_WIDTH cfg \<and> 0 < GRID_HEIGHT cfg"
  proof -
    from dims attemptInit_gamejs_start [of cfg rnd k] obtain x y where
      p: "gj_path (attemptInit_gamejs cfg rnd k) = [y * GRID_WIDTH cfg + x]"
        "gj_visited (attemptInit_gamejs cfg rnd k) = {y * GRID_WIDTH cfg + x}"
      and x: "0 \<le> x" "x \<le> GRID_WIDTH cfg - 1" and y: "0 \<le> y" "y \<le> GRID_HEIGHT cfg - 1"
      by blast
    from dims x y have "0 < GRID_WIDTH cfg" "0 \<le> x" "x < GRID_WIDTH cfg" "0 \<le> y" by simp_all
    from cell_coordinates [OF this] have "tileX cfg (y * GRID_WIDTH cfg + x) = x"
      "tileY cfg (y * GRID_WIDTH cfg + x) = y" .
    with p x y show ?thesis by simp
  qed
  from a b show ?thesis by (simp add: attemptPathGeneration_def)
qed

theorem attempt_start_tile_witness:
  "st_path (attemptInit desktopConfig zeroDraws 0) = [13]
   \<and> tileX desktopConfig 13 = 1 \<and> tileY desktopConfig 13 = 1
   \<and> gj_path (attemptInit_gamejs desktopConfig zeroDraws 0) = [0]"
proof -
  have d: "3 \<le> GRID_WIDTH desktopConfig \<and> 3 \<le> GRID_HEIGHT desktopConfig"
    "0 < GRID_WIDTH desktopConfig \<and> 0 < GRID_HEIGHT desktopConfig"
    by (simp_all add: desktopConfig_def)
  have p: "st_path (attemptInit desktopConfig zeroDraws 0) = [13]"
    "gj_path (attemptInit_gamejs desktopConfig zeroDraws 0) = [0]"
    by (simp_all add: attemptInit_def attemptInit_gamejs_def desktopConfig_def zeroDraws_def
        floorRandomTimes_fraction Let_def)
  have f: "floorRandomTimes (zeroDraws 0) (GRID_WIDTH desktopConfig - 2) = 0"
    "floorRandomTimes (zeroDraws (Suc 0)) (GRID_HEIGHT desktopConfig - 2) = 0"
    by (simp_all add: zeroDraws_def floorRandomTimes_fraction)
  from attempt_start_tile [of desktopConfig zeroDraws 0] d p f
  show ?thesis by auto
qed

text \<open>
  The claim C8 as it is written fails on \<open>game.js\<close>, whose start tile is drawn from the
  whole grid: when the first two draws are 0 the attempt starts at tile 0, the corner
  \<open>(0, 0)\<close> of the outer ring.
\<close>

theorem attempt_start_tile_counterexample:
  "gj_path (attemptInit_gamejs desktopConfig zeroDraws 0) = [0]
   \<and> tileX desktopConfig 0 = 0 \<and> tileY desktopConfig 0 = 0
   \<and> \<not> (1 \<le> tileX desktopConfig (hd (gj_path (attemptInit_gamejs desktopConfig zeroDraws 0))))"
  by (simp add: attemptInit_gamejs_def desktopConfig_def zeroDraws_def
      floorRandomTimes_fraction Let_def tileX_def tileY_def)

section \<open>The scored selection of chooseNextTile\<close>

text \<open>
  C7, amended. \<open>chooseNextTile\<close> of the responsive script, called with at least one
  neighbour:
  \<^item> returns the only neighbour directly, without a draw, when there is exactly one;
  \<^item> otherwise scores every candidate by the number of valid neighbours it has once
    added (lookahead depth 1) and discards the candidates of score 0 unless the path
    is within 2 tiles of the target length; when at least one candidate survives, the
    result is the scored selection of the specification: the tile at index
    \<open>floor(draw * min 3 (number of survivors))\<close> of the survivors in descending order of
    score;
  \<^item> when no candidate survives, the result is
    \<open>neighbors[floor(draw * neighbors.length)]\<close>, a candidate of score 0.
  \<open>chooseNextTile\<close> of \<open>game.js\<close> discards nothing, scores against the path as it is
  and returns the tile at index \<open>floor(draw * ceil(n / 2))\<close> of the \<open>n\<close> neighbours in
  descending order of score. The choice is uniform as far as the draw is.
\<close>

theorem chooseNextTile_selection:
  assumes "neighbors \<noteq> []"
  shows "(length neighbors = 1 \<longrightarrow>
            chooseNextTile cfg rnd k neighbors vis pth = (Inr (hd neighbors), k))
     \<and> (length neighbors \<noteq> 1 \<and> survivors cfg neighbors vis pth \<noteq> [] \<longrightarrow>
          (\<exists>r. chooseNextTile cfg rnd k neighbors vis pth = (Inr r, Suc k)
              \<and> specScoredSelection cfg (rnd k) neighbors vis pth r))
     \<and> (length neighbors \<noteq> 1 \<and> survivors cfg neighbors vis pth = [] \<longrightarrow>
          (\<exists>r \<in> set neighbors. chooseNextTile cfg rnd k neighbors vis pth = (Inr r, Suc k)
              \<and> arrayGet neighbors (floorRandomTimes (rnd k) (int (length neighbors))) = Some r))
     \<and> (\<exists>r. chooseNextTile_gamejs cfg rnd k neighbors vis pth = (Inr r, Suc k)
          \<and> rankedSelection (lookaheadScore_gamejs cfg vis pth) neighbors
               (floorRandomTimes (rnd k) (int (nat \<lceil>real (length neighbors) / 2\<rceil>))) r)"
proof -
  let ?sv = "survivors cfg neighbors vis pth"
  have single: "chooseNextTile cfg rnd k neighbors vis pth = (Inr (hd neighbors), k)"
    if "length neighbors = 1"
  proof -
    from that obtain n where "neighbors = [n]" by (cases neighbors) auto
    then show ?thesis by (simp add: chooseNextTile_def arrayRead_def arrayGet_def)
  qed
  have scored: "\<exists>r. chooseNextTile cfg rnd k neighbors vis pth = (Inr r, Suc k)
              \<and> specScoredSelection cfg (rnd k) neighbors vis pth r"
    if several: "length neighbors \<noteq> 1" and sv: "?sv \<noteq> []"
  proof -
    let ?K = "min 3 (length ?sv)"
    from sv have K: "0 < ?K" "?K \<le> length ?sv" by (cases ?sv; simp)+
    from sort_key_ranked [OF sv K, of "lookaheadScore cfg vis pth" "rnd k"] obtain s where
      get: "arrayGet (take ?K (sort_key (\<lambda>s. - snd s)
                (map (\<lambda>n. (n, lookaheadScore cfg vis pth n)) ?sv)))
          (floorRandomTimes (rnd k) (int (length (take ?K (sort_key (\<lambda>s. - snd s)
                (map (\<lambda>n. (n, lookaheadScore cfg vis pth n)) ?sv))))))
         = Some (s, lookaheadScore cfg vis pth s)"
      and rk: "rankedSelection (lookaheadScore cfg vis pth) ?sv
                 (floorRandomTimes (rnd k) (int ?K)) s" by blast
    from several sv get have "chooseNextTile cfg rnd k neighbors vis pth = (Inr s, Suc k)"
      unfolding chooseNextTile_def Let_def viable_survivors by simp
    moreover from several rk have "specScoredSelection cfg (rnd k) neighbors vis pth s"
      by (simp add: specScoredSelection_def)
    ultimately show ?thesis by blast
  qed
  have fallback: "\<exists>r \<in> set neighbors. chooseNextTile cfg rnd k neighbors vis pth = (Inr r, Suc k)
              \<and> arrayGet neighbors (floorRandomTimes (rnd k) (int (length neighbors))) = Some r"
    if several: "length neighbors \<noteq> 1" and sv: "?sv = []"
  proof -
    from arrayGet_random [OF assms, of "rnd k"] obtain v where
      v: "v \<in> set neighbors"
        "arrayGet neighbors (floorRandomTimes (rnd k) (int (length neighbors))) = Some v" by blast
    from several sv v(2) have "chooseNextTile cfg rnd k neighbors vis pth = (Inr v, Suc k)"
      unfolding chooseNextTile_def Let_def viable_survivors by (simp add: arrayRead_def)
    with v show ?thesis by blast
  qed
  have gamejs: "\<exists>r. chooseNextTile_gamejs cfg rnd k neighbors vis pth = (Inr r, Suc k)
          \<and> rankedSelection (lookaheadScore_gamejs cfg vis pth) neighbors
               (floorRandomTimes (rnd k) (int (nat \<lceil>real (length neighbors) / 2\<rceil>))) r"
  proof -
    let ?K = "nat \<lceil>real (length neighbors) / 2\<rceil>"
    from assms have "0 < length neighbors" by simp
    then have K: "0 < ?K" by (rule ceil_half_positive)
    have K': "?K \<le> length neighbors" by linarith
    from sort_key_ranked [OF assms K K', of "lookaheadScore_gamejs cfg vis pth" "rnd k"]
    obtain s where
      get: "arrayGet (take ?K (sort_key (\<lambda>s. - snd s)
                (map (\<lambda>n. (n, lookaheadScore_gamejs cfg vis pth n)) neighbors)))
          (floorRandomTimes (rnd k) (int (length (take ?K (sort_key (\<lambda>s. - snd s)
                (map (\<lambda>n. (n, lookaheadScore_gamejs cfg vis pth n)) neighbors))))))
         = Some (s, lookaheadScore_gamejs cfg vis pth s)"
      and rk: "rankedSelection (lookaheadScore_gamejs cfg vis pth) neighbors
                 (floorRandomTimes (rnd k) (int ?K)) s" by blast
    from get have "chooseNextTile_gamejs cfg rnd k neighbors vis pth = (Inr s, Suc k)"
      unfolding chooseNextTile_gamejs_def Let_def lookaheadScore_gamejs_def [symmetric]
      by simp
    with rk show ?thesis by blast
  qed
  from single scored fallback gamejs show ?thesis by blast
qed

theorem chooseNextTile_selection_witness:
  "chooseNextTile desktopConfig zeroDraws 2 [1, 25, 12, 14] {13} [13] = (Inr 25, 3)
   \<and> specScoredSelection desktopConfig (zeroDraws 2) [1, 25, 12, 14] {13} [13] 25
   \<and> chooseNextTile desktopConfig zeroDraws 3 [7] {19, 20, 8} [19, 20, 8] = (Inr 7, 3)
   \<and> arrayGet [0, 2 :: int] (floorRandomTimes (fallbackDraws 7) (int (length [0, 2 :: int]))) = Some 2"
proof -
  have ne: "[1, 25, 12, 14 :: int] \<noteq> []" "[7 :: int] \<noteq> []" "[0, 2 :: int] \<noteq> []" by simp_all
  have sv: "length [1, 25, 12, 14 :: int] \<noteq> 1
      \<and> survivors desktopConfig [1, 25, 12, 14] {13} [13] \<noteq> []"
    by (simp add: survivors_def lookaheadScore_def nearCompletion_def desktopConfig_def
        getValidNeighbors_def wouldCreateLoop_def directions_def smod_nonneg Let_def)
  have run: "chooseNextTile desktopConfig zeroDraws 2 [1, 25, 12, 14] {13} [13] = (Inr 25, 3)"
    by (simp add: desktopConfig_def zeroDraws_def
        chooseNextTile_def scoreNeighbors_def getValidNeighbors_def wouldCreateLoop_def
        directions_def arrayGet_def arrayRead_def floorRandomTimes_fraction smod_nonneg Let_def)
  from chooseNextTile_selection [OF ne(1), where cfg = desktopConfig and rnd = zeroDraws and k = 2
      and vis = "{13}" and pth = "[13]"] sv
  obtain r where "chooseNextTile desktopConfig zeroDraws 2 [1, 25, 12, 14] {13} [13] = (Inr r, Suc 2)"
    "specScoredSelection desktopConfig (zeroDraws 2) [1, 25, 12, 14] {13} [13] r" by blast
  with run have a: "specScoredSelection desktopConfig (zeroDraws 2) [1, 25, 12, 14] {13} [13] 25"
    by simp
  from chooseNextTile_selection [OF ne(2), where cfg = desktopConfig and rnd = zeroDraws and k = 3
      and vis = "{19, 20, 8}" and pth = "[19, 20, 8]"]
  have b: "chooseNextTile desktopConfig zeroDraws 3 [7] {19, 20, 8} [19, 20, 8] = (Inr 7, 3)"
    by simp
  have "length [0, 2 :: int] \<noteq> 1
      \<and> survivors desktopConfig [0, 2] (st_visited fallbackState) (st_path fallbackState) = []"
    by (simp add: survivors_def fallback_scores)
  with chooseNextTile_selection [OF ne(3), where cfg = desktopConfig and rnd = fallbackDraws
      and k = 7 and vis = "st_visited fallbackState" and pth = "st_path fallbackState"] fallback_choice
  have c: "arrayGet [0, 2 :: int] (floorRandomTimes (fallbackDraws 7) (int (length [0, 2 :: int]))) = Some 2"
    by auto
  from run a b c show ?thesis by blast
qed

text \<open>
  The claim C7 as it is written fails where no candidate survives. The search of the
  responsive script reaches, after five pushes, the path \<open>[15, 27, 26, 25, 13, 1]\<close>; the
  valid neighbours of tile 1 are 0 and 2, both with lookahead score 0, and 30 tiles
  remain. There are several candidates and no survivor, yet \<open>chooseNextTile\<close> returns
  tile 2, which it should have discarded: the branch taken is
  \<open>neighbors[Math.floor(Math.random() * neighbors.length)]\<close>.
\<close>

theorem chooseNextTile_selection_counterexample:
  "loopStates (attemptStep desktopConfig fallbackDraws) 5 (attemptInit desktopConfig fallbackDraws 0)
     = Some fallbackState
   \<and> getValidNeighbors desktopConfig 1 (st_visited fallbackState) (st_path fallbackState) = [0, 2]
   \<and> chooseNextTile desktopConfig fallbackDraws 7 [0, 2]
       (st_visited fallbackState) (st_path fallbackState) = (Inr 2, 8)
   \<and> lookaheadScore desktopConfig (st_visited fallbackState) (st_path fallbackState) 2 = 0
   \<and> \<not> nearCompletion desktopConfig (st_path fallbackState)
   \<and> \<not> specScoredSelection desktopConfig (fallbackDraws 7) [0, 2]
         (st_visited fallbackState) (st_path fallbackState) 2"
proof -
  have "survivors desktopConfig [0, 2] (st_visited fallbackState) (st_path fallbackState) = []"
    by (simp add: survivors_def fallback_scores)
  then have "\<not> specScoredSelection desktopConfig (fallbackDraws 7) [0, 2]
         (st_visited fallbackState) (st_path fallbackState) 2"
    by (simp add: specScoredSelection_def rankedSelection_def arrayGet_def)
  with fallback_run fallback_neighbors fallback_choice fallback_scores show ?thesis by blast
qed

end
